theory Spec2Isabelle
  imports Complex_Main "HOL-Library.Log_Nat"
begin

section \<open>Errors\<close>

text \<open>
  The exceptions of the Python runtime that the functions of \<^verbatim>\<open>SimulationAndRand.py\<close> can
  run into. A call either raises (\<open>Inl\<close>) or returns (\<open>Inr\<close>).
\<close>

datatype py_error =
    ZeroDivisionError | OverflowError | UnboundLocalError
  | PolynomialError | NotImplementedError

section \<open>Congruential engine\<close>

text \<open>
  \<^verbatim>\<open>random_mixed_congruential_generator(a, c, m, x_zero, upper_bound)\<close>.
  The \<^verbatim>\<open>while it <= upper_bound\<close> loop is the recursive function \<open>rmcg_loop\<close>, whose
  arguments after the five parameters are the loop variables \<^verbatim>\<open>it\<close>,
  \<^verbatim>\<open>current_x\<close> and \<^verbatim>\<open>numbers_generated\<close>. Python's integers are unbounded
  (\<open>int\<close>); its \<^verbatim>\<open>%\<close> takes the sign of the divisor, as \<open>mod\<close> on \<open>int\<close> does, and
  raises \<^verbatim>\<open>ZeroDivisionError\<close> when the divisor is zero.
\<close>

function rmcg_loop ::
  "int \<Rightarrow> int \<Rightarrow> int \<Rightarrow> int \<Rightarrow> int \<Rightarrow> int \<Rightarrow> int \<Rightarrow> int list \<Rightarrow> py_error + int list"
where
  "rmcg_loop a c m x_zero upper_bound it current_x numbers_generated =
     (if it \<le> upper_bound then
        (if m = 0 then Inl ZeroDivisionError
         else
           (let next_x = (a * current_x + c) mod m;
                numbers_generated' = numbers_generated @ [next_x]
            in if next_x = x_zero then Inr numbers_generated'
               else rmcg_loop a c m x_zero upper_bound (it + 1) next_x numbers_generated'))
      else Inr numbers_generated)"
  by pat_completeness auto
termination
  by (relation "measure (\<lambda>(a, c, m, x_zero, upper_bound, it, current_x, numbers_generated).
        nat (upper_bound + 1 - it))") auto

declare rmcg_loop.simps [simp del]

definition random_mixed_congruential_generator ::
  "int \<Rightarrow> int \<Rightarrow> int \<Rightarrow> int \<Rightarrow> int \<Rightarrow> py_error + int list"
where
  "random_mixed_congruential_generator a c m x_zero upper_bound =
     rmcg_loop a c m x_zero upper_bound 0 x_zero []"

subsection \<open>Python floats\<close>

text \<open>
  The normalised variant computes \<^verbatim>\<open>(next_x + (1 / 2)) / m\<close> in Python's \<^verbatim>\<open>float\<close>,
  the IEEE 754 binary64 format. A finite float is modelled by the rational number it
  denotes (the sign of a zero is not kept), next to the two infinities and NaN.

  \<open>round_binary64\<close> rounds a rational to the nearest number with a 53-bit significand,
  ties to the even significand, with gradual underflow: below \<open>2 powi (- 1022)\<close> the spacing
  stays \<open>2 powi (- 1074)\<close>. \<open>ilog2 q\<close> is the exponent of the binade of a positive \<open>q\<close>, the
  integer \<open>e\<close> with \<open>2 powi e \<le> q < 2 powi (e + 1)\<close>. A result whose magnitude reaches
  \<open>2 ^ 1024\<close> is an infinity.
\<close>

datatype pyfloat = Finite rat | PosInf | NegInf | NaN

definition ilog2 :: "rat \<Rightarrow> int" where
  "ilog2 q = (if 1 \<le> q then bitlen \<lfloor>q\<rfloor> - 1 else - bitlen (\<lceil>1 / q\<rceil> - 1))"

definition round_half_even :: "rat \<Rightarrow> int" where
  "round_half_even q =
     (let f = \<lfloor>q\<rfloor>; d = q - of_int f
      in if d < 1 / 2 then f else if 1 / 2 < d then f + 1 else if even f then f else f + 1)"

definition round_binary64 :: "rat \<Rightarrow> rat" where
  "round_binary64 q =
     (if q = 0 then 0
      else (let e = max (ilog2 \<bar>q\<bar> - 52) (- 1074)
            in of_int (round_half_even (q / 2 powi e)) * 2 powi e))"

definition round_to_float :: "rat \<Rightarrow> pyfloat" where
  "round_to_float q =
     (let r = round_binary64 q
      in if 2 ^ 1024 \<le> r then PosInf else if r \<le> - (2 ^ 1024) then NegInf else Finite r)"

text \<open>
  The conversion of an \<^verbatim>\<open>int\<close> operand of a float operation: correctly rounded, and
  \<^verbatim>\<open>OverflowError\<close> when the integer is too large for a float.
\<close>

definition float_of_int :: "int \<Rightarrow> py_error + pyfloat" where
  "float_of_int n =
     (case round_to_float (of_int n) of Finite r \<Rightarrow> Inr (Finite r) | _ \<Rightarrow> Inl OverflowError)"

text \<open>Float addition: no exception, an overflow gives an infinity.\<close>

fun float_add :: "pyfloat \<Rightarrow> pyfloat \<Rightarrow> pyfloat" where
  "float_add (Finite x) (Finite y) = round_to_float (x + y)"
| "float_add NaN _ = NaN"
| "float_add _ NaN = NaN"
| "float_add PosInf NegInf = NaN"
| "float_add NegInf PosInf = NaN"
| "float_add PosInf _ = PosInf"
| "float_add _ PosInf = PosInf"
| "float_add NegInf _ = NegInf"
| "float_add _ NegInf = NegInf"

text \<open>Float true division: \<^verbatim>\<open>ZeroDivisionError\<close> on a zero divisor, whatever the dividend.\<close>

fun float_truediv :: "pyfloat \<Rightarrow> pyfloat \<Rightarrow> py_error + pyfloat" where
  "float_truediv x (Finite y) =
     (if y = 0 then Inl ZeroDivisionError
      else Inr (case x of
                  Finite x' \<Rightarrow> round_to_float (x' / y)
                | PosInf \<Rightarrow> (if 0 < y then PosInf else NegInf)
                | NegInf \<Rightarrow> (if 0 < y then NegInf else PosInf)
                | NaN \<Rightarrow> NaN))"
| "float_truediv _ NaN = Inr NaN"
| "float_truediv (Finite x) _ = Inr (Finite 0)"
| "float_truediv _ _ = Inr NaN"

subsection \<open>The normalised variant\<close>

text \<open>
  \<^verbatim>\<open>uniform_random_from_mixed_congruential_generator\<close> has its own copy of the loop; the
  value appended is \<^verbatim>\<open>(next_x + (1 / 2)) / m\<close>, where \<^verbatim>\<open>1 / 2\<close> is the float \<open>0.5\<close> and
  both integers are converted to float by the float operation they enter.
\<close>

function urmcg_loop ::
  "int \<Rightarrow> int \<Rightarrow> int \<Rightarrow> int \<Rightarrow> int \<Rightarrow> int \<Rightarrow> int \<Rightarrow> pyfloat list \<Rightarrow> py_error + pyfloat list"
where
  "urmcg_loop a c m x_zero upper_bound it current_x numbers_generated =
     (if it \<le> upper_bound then
        (if m = 0 then Inl ZeroDivisionError
         else
           (let next_x = (a * current_x + c) mod m
            in case float_of_int next_x of
                 Inl e \<Rightarrow> Inl e
               | Inr fx \<Rightarrow>
                   (case float_of_int m of
                      Inl e \<Rightarrow> Inl e
                    | Inr fm \<Rightarrow>
                        (case float_truediv (float_add fx (Finite (1 / 2))) fm of
                           Inl e \<Rightarrow> Inl e
                         | Inr v \<Rightarrow>
                             (let numbers_generated' = numbers_generated @ [v]
                              in if next_x = x_zero then Inr numbers_generated'
                                 else urmcg_loop a c m x_zero upper_bound (it + 1) next_x
                                        numbers_generated')))))
      else Inr numbers_generated)"
  by pat_completeness auto
termination
  by (relation "measure (\<lambda>(a, c, m, x_zero, upper_bound, it, current_x, numbers_generated).
        nat (upper_bound + 1 - it))") auto

declare urmcg_loop.simps [simp del]

definition uniform_random_from_mixed_congruential_generator ::
  "int \<Rightarrow> int \<Rightarrow> int \<Rightarrow> int \<Rightarrow> int \<Rightarrow> py_error + pyfloat list"
where
  "uniform_random_from_mixed_congruential_generator a c m x_zero upper_bound =
     urmcg_loop a c m x_zero upper_bound 0 x_zero []"

text \<open>
  The transform as the specification words it, for the comparison with the raw variant:
  \<open>(raw + 0.5) / m\<close> on one raw value, and its elementwise application to a list, where the
  first element that raises decides.
\<close>

definition midpoint_normalize :: "int \<Rightarrow> int \<Rightarrow> py_error + pyfloat" where
  "midpoint_normalize m raw =
     (case float_of_int raw of
        Inl e \<Rightarrow> Inl e
      | Inr fx \<Rightarrow>
          (case float_of_int m of
             Inl e \<Rightarrow> Inl e
           | Inr fm \<Rightarrow> float_truediv (float_add fx (Finite (1 / 2))) fm))"

fun midpoint_normalize_all :: "int \<Rightarrow> int list \<Rightarrow> py_error + pyfloat list" where
  "midpoint_normalize_all m [] = Inr []"
| "midpoint_normalize_all m (raw # raws) =
     (case midpoint_normalize m raw of
        Inl e \<Rightarrow> Inl e
      | Inr v \<Rightarrow>
          (case midpoint_normalize_all m raws of
             Inl e \<Rightarrow> Inl e
           | Inr vs \<Rightarrow> Inr (v # vs)))"

section \<open>Float operations of the samplers\<close>

text \<open>
  The samplers compute with Python floats as well: subtraction, multiplication and the
  comparisons \<^verbatim>\<open><\<close>, \<^verbatim>\<open><=\<close> and \<^verbatim>\<open>>\<close> of binary64. A product of an infinity and a zero
  is NaN. Every comparison with a NaN is false.
\<close>

fun float_neg :: "pyfloat \<Rightarrow> pyfloat" where
  "float_neg (Finite x) = Finite (- x)"
| "float_neg PosInf = NegInf"
| "float_neg NegInf = PosInf"
| "float_neg NaN = NaN"

definition float_sub :: "pyfloat \<Rightarrow> pyfloat \<Rightarrow> pyfloat" where
  "float_sub x y = float_add x (float_neg y)"

fun float_mul :: "pyfloat \<Rightarrow> pyfloat \<Rightarrow> pyfloat" where
  "float_mul (Finite x) (Finite y) = round_to_float (x * y)"
| "float_mul NaN _ = NaN"
| "float_mul _ NaN = NaN"
| "float_mul (Finite x) PosInf = (if x = 0 then NaN else if 0 < x then PosInf else NegInf)"
| "float_mul (Finite x) NegInf = (if x = 0 then NaN else if 0 < x then NegInf else PosInf)"
| "float_mul PosInf (Finite y) = (if y = 0 then NaN else if 0 < y then PosInf else NegInf)"
| "float_mul NegInf (Finite y) = (if y = 0 then NaN else if 0 < y then NegInf else PosInf)"
| "float_mul PosInf PosInf = PosInf"
| "float_mul NegInf NegInf = PosInf"
| "float_mul PosInf NegInf = NegInf"
| "float_mul NegInf PosInf = NegInf"

fun float_lt :: "pyfloat \<Rightarrow> pyfloat \<Rightarrow> bool" where
  "float_lt (Finite x) (Finite y) = (x < y)"
| "float_lt NaN _ = False"
| "float_lt _ NaN = False"
| "float_lt _ NegInf = False"
| "float_lt NegInf _ = True"
| "float_lt PosInf _ = False"
| "float_lt _ PosInf = True"

fun float_le :: "pyfloat \<Rightarrow> pyfloat \<Rightarrow> bool" where
  "float_le (Finite x) (Finite y) = (x \<le> y)"
| "float_le NaN _ = False"
| "float_le _ NaN = False"
| "float_le NegInf _ = True"
| "float_le _ PosInf = True"
| "float_le _ NegInf = False"
| "float_le PosInf _ = False"

definition float_gt :: "pyfloat \<Rightarrow> pyfloat \<Rightarrow> bool" where
  "float_gt x y = float_lt y x"

section \<open>The random source\<close>

text \<open>
  The samplers modelled here draw with \<^verbatim>\<open>random.uniform(0, 1)\<close> (with
  \<^verbatim>\<open>np.random.uniform(0, 1)\<close> in the catalog variant) from the process-wide generator,
  which is outside the repository. The generator is modelled by the sequence of the floats
  that its next draws return: a draw takes the head of the sequence and leaves the rest.
  Console output is not modelled.
\<close>

type_synonym rng = "nat \<Rightarrow> pyfloat"

definition random_uniform_0_1 :: "rng \<Rightarrow> pyfloat \<times> rng" where
  "random_uniform_0_1 g = (g 0, \<lambda>n. g (Suc n))"

section \<open>Acceptance-rejection sampler\<close>

text \<open>
  \<^verbatim>\<open>generate_acceptance_rejection(m, a, b, function, upper_limit)\<close>. The numeric
  arguments are floats. The text \<^verbatim>\<open>function\<close> is evaluated by \<^verbatim>\<open>eval\<close> in the scope
  of the loop body; it is modelled by the function of \<^verbatim>\<open>x\<close> it denotes. The \<^verbatim>\<open>for\<close>
  loop runs \<^verbatim>\<open>upper_limit\<close> times (not at all when \<^verbatim>\<open>upper_limit \<le> 0\<close>) and stops early
  at the \<^verbatim>\<open>break\<close>. The last argument of \<open>gar_loop\<close> holds the local variables
  \<^verbatim>\<open>first_random\<close>, \<^verbatim>\<open>second_random\<close> and \<^verbatim>\<open>evaluation_image\<close>, which are unbound
  (\<open>None\<close>) until the body has run once; the statements after the loop read all three.
  The candidate, the quotient \<^verbatim>\<open>evaluation_image / m\<close> and the test are computed in
  float arithmetic; the division raises \<^verbatim>\<open>ZeroDivisionError\<close> when \<^verbatim>\<open>m\<close> is zero.
\<close>

fun gar_loop ::
  "pyfloat \<Rightarrow> pyfloat \<Rightarrow> pyfloat \<Rightarrow> (pyfloat \<Rightarrow> pyfloat) \<Rightarrow> nat \<Rightarrow> rng
     \<Rightarrow> (pyfloat \<times> pyfloat \<times> pyfloat) option
     \<Rightarrow> py_error + (pyfloat \<times> pyfloat \<times> pyfloat) option"
where
  "gar_loop m a b function 0 g vars = Inr vars"
| "gar_loop m a b function (Suc n) g vars =
     (let (first_random, g1) = random_uniform_0_1 g;
          (second_random, g2) = random_uniform_0_1 g1;
          x = float_add a (float_mul (float_sub b a) first_random);
          evaluation_image = function x
      in case float_truediv evaluation_image m of
           Inl e \<Rightarrow> Inl e
         | Inr ratio \<Rightarrow>
             if float_le second_random ratio
             then Inr (Some (first_random, second_random, evaluation_image))
             else gar_loop m a b function n g2
                    (Some (first_random, second_random, evaluation_image)))"

definition generate_acceptance_rejection ::
  "pyfloat \<Rightarrow> pyfloat \<Rightarrow> pyfloat \<Rightarrow> (pyfloat \<Rightarrow> pyfloat) \<Rightarrow> int \<Rightarrow> rng \<Rightarrow> py_error + pyfloat"
where
  "generate_acceptance_rejection m a b function upper_limit g =
     (case gar_loop m a b function (nat upper_limit) g None of
        Inl e \<Rightarrow> Inl e
      | Inr None \<Rightarrow> Inl UnboundLocalError
      | Inr (Some (first_random, second_random, evaluation_image)) \<Rightarrow> Inr evaluation_image)"

text \<open>
  Two expressions of the loop body, named for the statements about the trials: the
  candidate \<^verbatim>\<open>a + (b - a) * first_random\<close> and the test
  \<^verbatim>\<open>second_random <= evaluation_image / m\<close>, both in float arithmetic. A test whose
  division raises does not hold.
\<close>

definition ar_candidate :: "pyfloat \<Rightarrow> pyfloat \<Rightarrow> pyfloat \<Rightarrow> pyfloat" where
  "ar_candidate a b u1 = float_add a (float_mul (float_sub b a) u1)"

definition ar_accepts :: "pyfloat \<Rightarrow> pyfloat \<Rightarrow> pyfloat \<Rightarrow> bool" where
  "ar_accepts m fx u2 =
     (case float_truediv fx m of Inl e \<Rightarrow> False | Inr ratio \<Rightarrow> float_le u2 ratio)"

text \<open>
  \<^verbatim>\<open>generate_acceptance_rejection_with_symp\<close> is not embedded: what it computes from
  its text argument is decided by \<^verbatim>\<open>sympify\<close>, \<^verbatim>\<open>subs\<close> and \<^verbatim>\<open>evalf\<close> of the
  symbolic library, which is outside the repository.
\<close>

section \<open>Symbolic inversion helper\<close>

text \<open>
  \<^verbatim>\<open>integrate_and_find_inverse(function)\<close>. The symbolic engine is outside the
  repository: \<open>integrate\<close> stands for \<^verbatim>\<open>smp.integrate(function, x)\<close> and \<open>solve\<close> for
  \<^verbatim>\<open>smp.solve(smp.Eq(integrated, r), x)\<close>, each of which returns or raises. The
  \<^verbatim>\<open>try\<close> block catches \<^verbatim>\<open>PolynomialError\<close> alone and then returns \<^verbatim>\<open>None\<close>; the
  function otherwise returns the two-element list of the integral and the list of
  solutions.
\<close>

definition integrate_and_find_inverse ::
  "('e \<Rightarrow> py_error + 'e) \<Rightarrow> ('e \<Rightarrow> py_error + 'e list) \<Rightarrow> 'e
     \<Rightarrow> py_error + ('e \<times> 'e list) option"
where
  "integrate_and_find_inverse integrate solve function =
     (case integrate function of
        Inl err \<Rightarrow> Inl err
      | Inr integrated \<Rightarrow>
          (case solve integrated of
             Inr inverse' \<Rightarrow> Inr (Some (integrated, inverse'))
           | Inl err \<Rightarrow> (if err = PolynomialError then Inr None else Inl err)))"

section \<open>Inverse-transform sampler\<close>

text \<open>
  \<^verbatim>\<open>inverse_transform_sampling\<close> and
  \<^verbatim>\<open>user_inverse_transform_sampling_from_inverse\<close>. The quantile function
  \<^verbatim>\<open>dist.ppf\<close> of the named distribution with its parameters, and the function
  \<^verbatim>\<open>inverse_func\<close> made from the inverse expression, are parameters: functions from
  floats to floats, whose value can be an infinity or NaN. A bound is \<open>None\<close> or \<open>Some\<close>
  float, and the check against the bounds uses the float comparisons \<^verbatim>\<open><\<close> and
  \<^verbatim>\<open>>\<close>. Each \<^verbatim>\<open>while len(rvs) < n_samples\<close> loop has no cap on the number of draws: it
  is a partial function, and \<open>None\<close> as its value means that the call does not return.
\<close>

partial_function (option) its_loop ::
  "int \<Rightarrow> (pyfloat \<Rightarrow> pyfloat) \<Rightarrow> pyfloat option \<Rightarrow> pyfloat option \<Rightarrow> rng \<Rightarrow> pyfloat list
     \<Rightarrow> pyfloat list option"
where
  "its_loop n_samples ppf lower_bound upper_bound g rvs =
     (if int (length rvs) < n_samples then
        (let (U, g') = random_uniform_0_1 g;
             rv = ppf U
         in if (case lower_bound of None \<Rightarrow> False | Some lb \<Rightarrow> float_lt rv lb)
               \<or> (case upper_bound of None \<Rightarrow> False | Some ub \<Rightarrow> float_gt rv ub)
            then its_loop n_samples ppf lower_bound upper_bound g' rvs
            else its_loop n_samples ppf lower_bound upper_bound g' (rvs @ [rv]))
      else Some rvs)"

definition inverse_transform_sampling ::
  "int \<Rightarrow> (pyfloat \<Rightarrow> pyfloat) \<Rightarrow> pyfloat option \<Rightarrow> pyfloat option \<Rightarrow> rng
     \<Rightarrow> pyfloat list option"
where
  "inverse_transform_sampling n_samples ppf lower_bound upper_bound g =
     its_loop n_samples ppf lower_bound upper_bound g []"

partial_function (option) uits_loop ::
  "int \<Rightarrow> (pyfloat \<Rightarrow> pyfloat) \<Rightarrow> pyfloat option \<Rightarrow> pyfloat option \<Rightarrow> rng \<Rightarrow> pyfloat list
     \<Rightarrow> pyfloat list option"
where
  "uits_loop n_samples inverse_func lower_bound upper_bound g rvs =
     (if int (length rvs) < n_samples then
        (let (U, g') = random_uniform_0_1 g;
             rv = inverse_func U
         in if (case lower_bound of None \<Rightarrow> False | Some lb \<Rightarrow> float_lt rv lb)
               \<or> (case upper_bound of None \<Rightarrow> False | Some ub \<Rightarrow> float_gt rv ub)
            then uits_loop n_samples inverse_func lower_bound upper_bound g' rvs
            else uits_loop n_samples inverse_func lower_bound upper_bound g' (rvs @ [rv]))
      else Some rvs)"

definition user_inverse_transform_sampling_from_inverse ::
  "int \<Rightarrow> (pyfloat \<Rightarrow> pyfloat) \<Rightarrow> pyfloat option \<Rightarrow> pyfloat option \<Rightarrow> rng
     \<Rightarrow> pyfloat list option"
where
  "user_inverse_transform_sampling_from_inverse n_samples inverse_func lower_bound upper_bound g =
     uits_loop n_samples inverse_func lower_bound upper_bound g []"

section \<open>Properties of the congruential engine\<close>

text \<open>
  The loop invariant, for a nonzero modulus: the loop returns its accumulator extended by
  some list \<open>ys\<close>; every element of \<open>ys\<close> is the recurrence applied to its predecessor
  (the first one to \<open>current_x\<close>); \<open>ys\<close> has at most as many elements as iterations are
  left; only the last element of \<open>ys\<close> can be the seed; and the loop stopped either on the
  cap or on the seed.
\<close>

lemma rmcg_loop_inv:
  assumes "m \<noteq> 0"
  shows "\<exists>ys. rmcg_loop a c m x0 ub it cur acc = Inr (acc @ ys)
           \<and> (\<forall>i<length ys. ys ! i = (a * ((cur # ys) ! i) + c) mod m)
           \<and> int (length ys) \<le> max 0 (ub + 1 - it)
           \<and> (it \<le> ub \<longrightarrow> ys \<noteq> [])
           \<and> (int (length ys) = max 0 (ub + 1 - it) \<or> (ys \<noteq> [] \<and> last ys = x0))
           \<and> x0 \<notin> set (butlast ys)"
  using assms
proof (induction a c m x0 ub it cur acc rule: rmcg_loop.induct)
  case (1 a c m x0 ub it cur acc)
  let ?n = "(a * cur + c) mod m"
  show ?case
  proof (cases "it \<le> ub")
    case False
    then have "rmcg_loop a c m x0 ub it cur acc = Inr (acc @ [])"
      by (subst rmcg_loop.simps) simp
    with False show ?thesis
      by (intro exI [of _ "[]"]) simp
  next
    case it: True
    show ?thesis
    proof (cases "?n = x0")
      case True
      with it "1.prems" have "rmcg_loop a c m x0 ub it cur acc = Inr (acc @ [?n])"
        by (subst rmcg_loop.simps) simp
      with True it show ?thesis
        by (intro exI [of _ "[?n]"]) simp
    next
      case False
      from "1.IH" [OF it "1.prems" refl refl False "1.prems"]
      obtain ys where ys:
        "rmcg_loop a c m x0 ub (it + 1) ?n (acc @ [?n]) = Inr ((acc @ [?n]) @ ys)"
        "\<forall>i<length ys. ys ! i = (a * ((?n # ys) ! i) + c) mod m"
        "int (length ys) \<le> max 0 (ub + 1 - (it + 1))"
        "int (length ys) = max 0 (ub + 1 - (it + 1)) \<or> (ys \<noteq> [] \<and> last ys = x0)"
        "x0 \<notin> set (butlast ys)"
        by blast
      from it "1.prems" False ys(1)
      have run: "rmcg_loop a c m x0 ub it cur acc = Inr (acc @ (?n # ys))"
        by (subst rmcg_loop.simps) simp
      have rec: "\<forall>i<length (?n # ys). (?n # ys) ! i = (a * ((cur # ?n # ys) ! i) + c) mod m"
      proof (intro allI impI)
        fix i assume "i < length (?n # ys)"
        then show "(?n # ys) ! i = (a * ((cur # ?n # ys) ! i) + c) mod m"
          using ys(2) by (cases i) auto
      qed
      have len: "int (length (?n # ys)) \<le> max 0 (ub + 1 - it)"
        using ys(3) it by simp
      have stop: "int (length (?n # ys)) = max 0 (ub + 1 - it)
                  \<or> (?n # ys \<noteq> [] \<and> last (?n # ys) = x0)"
        using ys(4) it by auto
      have seed: "x0 \<notin> set (butlast (?n # ys))"
        using ys(5) False by auto
      from run rec len stop seed show ?thesis
        by (intro exI [of _ "?n # ys"]) simp
    qed
  qed
qed

text \<open>
  C1. For a positive modulus and a cap \<open>max_iter \<ge> 0\<close> (the other input conditions of the
  contract, \<open>a, c \<ge> 0\<close> and \<open>x0\<close> in \<open>[0, m)\<close>, are not needed), the generator returns a
  list \<open>xs\<close>: each element is the recurrence \<open>(a * previous + c) mod m\<close> applied to its
  predecessor, starting from the seed; every element lies in \<open>[0, m)\<close>; the list is not
  empty and has at most \<open>max_iter + 1\<close> elements; generation stopped because the cap of
  \<open>max_iter + 1\<close> elements was reached or because the value just produced is the seed,
  which is then the last element; no earlier element is the seed.
\<close>

theorem rmcg_range_and_stop:
  assumes "0 < m" and "0 \<le> max_iter"
  shows "\<exists>xs. random_mixed_congruential_generator a c m x0 max_iter = Inr xs
           \<and> (\<forall>i<length xs. xs ! i = (a * ((x0 # xs) ! i) + c) mod m)
           \<and> (\<forall>x\<in>set xs. 0 \<le> x \<and> x < m)
           \<and> xs \<noteq> []
           \<and> int (length xs) \<le> max_iter + 1
           \<and> (int (length xs) = max_iter + 1 \<or> last xs = x0)
           \<and> x0 \<notin> set (butlast xs)"
proof -
  from assms have "m \<noteq> 0" by simp
  from rmcg_loop_inv [OF this, of a c x0 max_iter 0 x0 "[]"]
  obtain xs where xs:
    "rmcg_loop a c m x0 max_iter 0 x0 [] = Inr xs"
    "\<forall>i<length xs. xs ! i = (a * ((x0 # xs) ! i) + c) mod m"
    "int (length xs) \<le> max 0 (max_iter + 1 - 0)"
    "0 \<le> max_iter \<longrightarrow> xs \<noteq> []"
    "int (length xs) = max 0 (max_iter + 1 - 0) \<or> (xs \<noteq> [] \<and> last xs = x0)"
    "x0 \<notin> set (butlast xs)"
    by auto
  have range: "\<forall>x\<in>set xs. 0 \<le> x \<and> x < m"
  proof
    fix x assume "x \<in> set xs"
    then obtain i where "i < length xs" "x = xs ! i"
      by (auto simp: in_set_conv_nth)
    with xs(2) have "x = (a * ((x0 # xs) ! i) + c) mod m" by simp
    with \<open>0 < m\<close> show "0 \<le> x \<and> x < m" by simp
  qed
  from xs range assms show ?thesis
    unfolding random_mixed_congruential_generator_def
    by (intro exI [of _ xs]) auto
qed

theorem rmcg_range_and_stop_witness:
  "(0::int) < 16 \<and> (0::int) \<le> 3
   \<and> (\<exists>xs. random_mixed_congruential_generator 5 3 16 1 3 = Inr xs
           \<and> (\<forall>i<length xs. xs ! i = (5 * ((1 # xs) ! i) + 3) mod 16)
           \<and> (\<forall>x\<in>set xs. 0 \<le> x \<and> x < 16)
           \<and> xs \<noteq> []
           \<and> int (length xs) \<le> 3 + 1
           \<and> (int (length xs) = 3 + 1 \<or> last xs = 1)
           \<and> 1 \<notin> set (butlast xs))"
  using rmcg_range_and_stop [of 16 3 5 3 1] by simp

text \<open>
  C2, as stated: the call with \<open>a = 5\<close>, \<open>c = 3\<close>, \<open>m = 16\<close>, seed \<open>1\<close> and cap \<open>20\<close>
  would return the seventeen values \<open>1, 8, 11, \<dots>, 6, 1\<close>. It does not: the list starts
  empty and only values produced by the recurrence are appended, so the seed is not the
  first element.
\<close>

theorem rmcg_scenario_counterexample:
  "random_mixed_congruential_generator 5 3 16 1 20 \<noteq>
     Inr [1, 8, 11, 10, 5, 12, 15, 14, 9, 0, 3, 2, 13, 4, 7, 6, 1]"
  by code_simp

text \<open>
  C2, amended: the call returns the sixteen successors of the seed along the recurrence
  \<open>1 \<rightarrow> 8 \<rightarrow> 11 \<rightarrow> \<dots> \<rightarrow> 6 \<rightarrow> 1\<close>, that is \<open>8, 11, \<dots>, 6, 1\<close>, ending at the repeat of
  the seed, well before the cap.
\<close>

theorem rmcg_scenario:
  "random_mixed_congruential_generator 5 3 16 1 20 =
     Inr [8, 11, 10, 5, 12, 15, 14, 9, 0, 3, 2, 13, 4, 7, 6, 1]"
  by code_simp

text \<open>
  C9, as stated: with modulus \<open>0\<close> the input is rejected or signalled. With a negative cap
  no iteration runs, the modulus is never used, and the call returns the empty list.
\<close>

theorem rmcg_zero_modulus_counterexample:
  "random_mixed_congruential_generator 5 3 0 1 (- 1) = Inr []"
  by (simp add: random_mixed_congruential_generator_def rmcg_loop.simps)

text \<open>
  C9, amended. The function does not inspect the modulus. With modulus \<open>0\<close> and a cap
  \<open>upper_bound \<ge> 0\<close> the first iteration evaluates \<^verbatim>\<open>(a * current_x + c) % 0\<close>, so the call
  raises the \<^verbatim>\<open>ZeroDivisionError\<close> of the runtime and returns no list, whatever \<open>a\<close>, \<open>c\<close>
  and the seed are; with a negative cap it returns the empty list and signals nothing.
\<close>

theorem rmcg_zero_modulus_by_cap:
  "(0 \<le> upper_bound \<longrightarrow>
      random_mixed_congruential_generator a c 0 x_zero upper_bound = Inl ZeroDivisionError)
   \<and> (upper_bound < 0 \<longrightarrow>
      random_mixed_congruential_generator a c 0 x_zero upper_bound = Inr [])"
  by (simp add: random_mixed_congruential_generator_def rmcg_loop.simps)

theorem rmcg_zero_modulus_by_cap_witness:
  "(0::int) \<le> 20 \<and> random_mixed_congruential_generator 5 3 0 1 20 = Inl ZeroDivisionError
   \<and> (- 7::int) < 0 \<and> random_mixed_congruential_generator 5 3 0 1 (- 7) = Inr []"
  using rmcg_zero_modulus_by_cap [of 20 5 3 1] rmcg_zero_modulus_by_cap [of "- 7" 5 3 1]
  by simp

section \<open>Properties of the float operations\<close>

text \<open>
  \<open>ilog2\<close> finds the binade of a positive rational, and no other exponent does.
\<close>

lemma ilog2_bounds:
  assumes "0 < q"
  shows "2 powi (ilog2 q) \<le> q \<and> q < 2 powi (ilog2 q + 1)"
proof (cases "1 \<le> q")
  case True
  define n where "n = \<lfloor>q\<rfloor>"
  have n1: "1 \<le> n" using True by (simp add: n_def le_floor_iff)
  then have n0: "0 < n" by simp
  have b1: "1 \<le> bitlen n" using n0 bitlen_eq_zero_iff [of n] bitlen_nonneg [of n] by linarith
  from bitlen_bounds [OF n0]
  have lo: "2 ^ nat (bitlen n - 1) \<le> n" and hi: "n < 2 ^ nat (bitlen n)" by auto
  have il: "ilog2 q = bitlen n - 1" using True by (simp add: ilog2_def n_def)
  have "(2::rat) powi (bitlen n - 1) = 2 ^ nat (bitlen n - 1)"
    using b1 by (simp add: power_int_def)
  also have "\<dots> = of_int (2 ^ nat (bitlen n - 1))" by simp
  also have "\<dots> \<le> of_int n" using lo by (simp only: of_int_le_iff)
  also have "\<dots> \<le> q" by (simp add: n_def)
  finally have A: "2 powi (ilog2 q) \<le> q" by (simp add: il)
  have "n + 1 \<le> 2 ^ nat (bitlen n)" using hi by simp
  then have "(of_int (n + 1) :: rat) \<le> of_int (2 ^ nat (bitlen n))" by (simp only: of_int_le_iff)
  moreover have "q < of_int (n + 1)" unfolding n_def by linarith
  ultimately have "q < 2 ^ nat (bitlen n)" by simp
  moreover have "(2::rat) powi (bitlen n - 1 + 1) = 2 ^ nat (bitlen n)"
    using b1 by (simp add: power_int_def)
  ultimately have B: "q < 2 powi (ilog2 q + 1)" by (simp add: il)
  from A B show ?thesis ..
next
  case False
  then have q1: "q < 1" by simp
  define y where "y = 1 / q"
  define N where "N = \<lceil>y\<rceil>"
  have y1: "1 < y" using assms q1 by (simp add: y_def)
  have N2: "2 \<le> N" using y1 unfolding N_def by linarith
  then have n0: "0 < N - 1" by simp
  define k where "k = bitlen (N - 1)"
  have k1: "1 \<le> k" using n0 bitlen_eq_zero_iff [of "N - 1"] bitlen_nonneg [of "N - 1"]
    unfolding k_def by linarith
  from bitlen_bounds [OF n0]
  have lo: "2 ^ nat (k - 1) \<le> N - 1" and hi: "N - 1 < 2 ^ nat k" by (auto simp: k_def)
  have il: "ilog2 q = - k" using False by (simp add: ilog2_def k_def N_def y_def)
  have "y \<le> of_int N" by (simp add: N_def)
  also have "N \<le> 2 ^ nat k" using hi by simp
  then have "(of_int N :: rat) \<le> of_int (2 ^ nat k)" by (simp only: of_int_le_iff)
  finally have "y \<le> 2 ^ nat k" by simp
  then have "1 / q \<le> 2 ^ nat k" by (simp add: y_def)
  then have "1 \<le> 2 ^ nat k * q" using assms by (simp add: field_simps)
  then have "1 / 2 ^ nat k \<le> q" by (simp add: field_simps)
  moreover have "(2::rat) powi (- k) = 1 / 2 ^ nat k"
    using k1 by (simp add: power_int_def field_simps)
  ultimately have A: "2 powi (ilog2 q) \<le> q" by (simp add: il)
  have "of_int (N - 1) < y" unfolding N_def by linarith
  moreover have "(of_int (2 ^ nat (k - 1)) :: rat) \<le> of_int (N - 1)"
    using lo by (simp only: of_int_le_iff)
  ultimately have "2 ^ nat (k - 1) < y" by simp
  then have "2 ^ nat (k - 1) < 1 / q" by (simp add: y_def)
  then have "q * 2 ^ nat (k - 1) < 1" using assms by (simp add: field_simps)
  then have "q < 1 / 2 ^ nat (k - 1)" by (simp add: field_simps)
  moreover have "(2::rat) powi (- k + 1) = 1 / 2 ^ nat (k - 1)"
  proof -
    have "- k + 1 = - (k - 1)" by simp
    then show ?thesis using k1 by (simp add: power_int_def field_simps)
  qed
  ultimately have B: "q < 2 powi (ilog2 q + 1)" by (simp add: il)
  from A B show ?thesis ..
qed

lemma pow2_less_cancel:
  assumes "(2::rat) powi m < 2 powi n"
  shows "m < n"
proof (rule ccontr)
  assume "\<not> m < n"
  then have "n \<le> m" by simp
  then have "(2::rat) powi n \<le> 2 powi m" by (intro power_int_increasing) simp_all
  with assms show False by simp
qed

lemma ilog2_unique:
  assumes "0 < q" and "2 powi e \<le> q" and "q < 2 powi (e + 1)"
  shows "ilog2 q = e"
proof -
  from ilog2_bounds [OF assms(1)]
  have lo: "2 powi (ilog2 q) \<le> q" and hi: "q < 2 powi (ilog2 q + 1)" by auto
  have "(2::rat) powi e < 2 powi (ilog2 q + 1)" using assms(2) hi by simp
  then have "e < ilog2 q + 1" by (rule pow2_less_cancel)
  moreover have "(2::rat) powi (ilog2 q) < 2 powi (e + 1)" using lo assms(3) by simp
  then have "ilog2 q < e + 1" by (rule pow2_less_cancel)
  ultimately show ?thesis by simp
qed

lemma round_half_even_of_int: "round_half_even (of_int k) = k"
  by (simp add: round_half_even_def)

lemma round_half_even_le: "q \<le> of_int N \<Longrightarrow> round_half_even q \<le> N"
proof -
  assume a: "q \<le> of_int N"
  then have f: "\<lfloor>q\<rfloor> \<le> N" by (simp add: floor_le_iff) 
  show ?thesis
  proof (cases "\<lfloor>q\<rfloor> = N")
    case True
    then have "of_int N \<le> q" by (metis of_int_floor_le)
    with a have "q = of_int N" by simp
    then show ?thesis by (simp add: round_half_even_of_int)
  next
    case False
    with f have "\<lfloor>q\<rfloor> + 1 \<le> N" by simp
    then show ?thesis by (simp add: round_half_even_def Let_def)
  qed
qed

lemma round_half_even_ge: "of_int N \<le> q \<Longrightarrow> N \<le> round_half_even q"
proof -
  assume "of_int N \<le> q"
  then have "N \<le> \<lfloor>q\<rfloor>" by (simp add: le_floor_iff)
  then show ?thesis by (simp add: round_half_even_def Let_def)
qed

text \<open>
  Rounding leaves a number unchanged when it is a multiple of the spacing of its binade:
  in particular the integers below \<open>2 ^ 53\<close> and the half-integers below \<open>2 ^ 52\<close>.
  A number between \<open>2 powi (- 53)\<close> and \<open>1 - 2 powi (- 53)\<close> rounds to a number strictly
  between \<open>0\<close> and \<open>1\<close>.
\<close>

lemma round_binary64_exact:
  assumes "q \<noteq> 0" and "q / 2 powi (max (ilog2 \<bar>q\<bar> - 52) (- 1074)) = of_int k"
  shows "round_binary64 q = q"
proof -
  define e where "e = max (ilog2 \<bar>q\<bar> - 52) (- 1074)"
  have p: "(2::rat) powi e \<noteq> 0" by simp
  from assms(2) have "q = of_int k * 2 powi e"
    unfolding e_def [symmetric] using p by (simp add: field_simps)
  moreover have "round_binary64 q = of_int (round_half_even (q / 2 powi e)) * 2 powi e"
    using assms(1) by (simp add: round_binary64_def e_def Let_def)
  ultimately show ?thesis
    using assms(2) unfolding e_def [symmetric] by (simp add: round_half_even_of_int)
qed

lemma round_binary64_dyadic:
  assumes "0 < k" and "j \<le> 1074" and "of_int k / 2 ^ j < (2::rat) powi (53 - int j)"
  shows "round_binary64 (of_int k / 2 ^ j) = of_int k / 2 ^ j"
proof -
  define q :: rat where "q = of_int k / 2 ^ j"
  have q0: "0 < q" using assms(1) by (simp add: q_def)
  define e where "e = max (ilog2 \<bar>q\<bar> - 52) (- 1074)"
  from ilog2_bounds [OF q0] have "2 powi (ilog2 q) \<le> q" by simp
  with assms(3) have "(2::rat) powi (ilog2 q) < 2 powi (53 - int j)" by (simp add: q_def)
  then have "ilog2 q < 53 - int j" by (rule pow2_less_cancel)
  with assms(2) q0 have e: "e \<le> - int j" by (simp add: e_def)
  define d where "d = nat (- int j - e)"
  have de: "- int j = e + int d" using e by (simp add: d_def)
  have "(2::rat) powi (- int j) = 2 powi e * 2 powi (int d)"
    unfolding de by (simp add: power_int_add)
  then have "1 / (2::rat) ^ j = 2 powi e * 2 ^ d"
    by (simp add: power_int_minus field_simps)
  then have "q = of_int k * (2 powi e * 2 ^ d)"
    by (simp add: q_def field_simps)
  then have "q / 2 powi e = of_int (k * 2 ^ d)" by simp
  then have "round_binary64 q = q"
    using q0 by (intro round_binary64_exact [of q "k * 2 ^ d"]) (simp_all add: e_def)
  then show ?thesis by (simp add: q_def)
qed

lemma round_binary64_int:
  assumes "0 \<le> n" and "n < 2 ^ 53"
  shows "round_binary64 (of_int n) = of_int n"
proof (cases "n = 0")
  case True
  then show ?thesis by (simp add: round_binary64_def)
next
  case False
  with assms(1) have "0 < n" by simp
  moreover from assms(2) have "(of_int n :: rat) < of_int (2 ^ 53)" by (simp only: of_int_less_iff)
  ultimately show ?thesis using round_binary64_dyadic [of n 0] by simp
qed

lemma round_binary64_half:
  assumes "0 \<le> n" and "n < 2 ^ 52"
  shows "round_binary64 (of_int n + 1 / 2) = of_int n + 1 / 2"
proof -
  have eq: "(of_int n + 1 / 2 :: rat) = of_int (2 * n + 1) / 2 ^ 1" by simp
  have "2 * n + 1 < 2 ^ 53" using assms(2) by simp
  then have "(of_int (2 * n + 1) :: rat) < of_int (2 ^ 53)" by (simp only: of_int_less_iff)
  then have "(of_int (2 * n + 1) :: rat) / 2 ^ 1 < 2 powi (53 - int 1)" by simp
  moreover have "0 < 2 * n + 1" using assms(1) by simp
  ultimately have "round_binary64 (of_int (2 * n + 1) / 2 ^ 1) = of_int (2 * n + 1) / 2 ^ 1"
    by (intro round_binary64_dyadic) simp_all
  then show ?thesis unfolding eq .
qed

lemma round_binary64_unit:
  assumes lo: "1 / 2 ^ 53 \<le> q" and hi: "q \<le> 1 - 1 / 2 ^ 53"
  shows "0 < round_binary64 q \<and> round_binary64 q < 1"
proof -
  have q0: "0 < q" using lo by (rule less_le_trans [rotated]) simp
  have q1: "q < 1" using hi by (rule le_less_trans) simp
  define L where "L = ilog2 q"
  from ilog2_bounds [OF q0]
  have bl: "2 powi L \<le> q" and bh: "q < 2 powi (L + 1)" by (simp_all add: L_def)
  have "(2::rat) powi L < 2 powi 0" using bl q1 by simp
  then have L0: "L < 0" by (rule pow2_less_cancel)
  have "(2::rat) powi (- 53) < 2 powi (L + 1)"
    using lo bh by (simp add: power_int_minus field_simps)
  then have L53: "- 53 < L + 1" by (rule pow2_less_cancel)
  define e where "e = L - 52"
  have e_eq: "max (ilog2 \<bar>q\<bar> - 52) (- 1074) = e" using q0 L53 by (simp add: e_def L_def)
  have r: "round_binary64 q = of_int (round_half_even (q / 2 powi e)) * 2 powi e"
    using q0 e_eq by (simp add: round_binary64_def Let_def)
  have split: "(2::rat) powi L = 2 powi e * 2 ^ 52" and split1: "(2::rat) powi (L + 1) = 2 powi e * 2 ^ 53"
    by (simp_all add: e_def power_int_diff power_int_add)
  have pe: "0 < (2::rat) powi e" by simp
  have "of_int (2 ^ 52) \<le> q / 2 powi e"
    using bl pe unfolding split by (simp add: field_simps)
  then have "2 ^ 52 \<le> round_half_even (q / 2 powi e)" by (rule round_half_even_ge)
  then have "0 < round_half_even (q / 2 powi e)" by simp
  then have pos: "0 < round_binary64 q" using pe unfolding r by simp
  have "round_binary64 q < 1"
  proof (cases "L = - 1")
    case True
    then have e53: "e = - 53" by (simp add: e_def)
    have "q * 2 ^ 53 \<le> (1 - 1 / 2 ^ 53) * 2 ^ 53" using hi by (intro mult_right_mono) simp_all
    then have "q / 2 powi e \<le> of_int (2 ^ 53 - 1)"
      unfolding e53 by (simp add: power_int_minus field_simps)
    then have "round_half_even (q / 2 powi e) \<le> 2 ^ 53 - 1" by (rule round_half_even_le)
    then have "(of_int (round_half_even (q / 2 powi e)) :: rat) \<le> of_int (2 ^ 53 - 1)"
      by (simp only: of_int_le_iff)
    then have "round_binary64 q \<le> of_int (2 ^ 53 - 1) * 2 powi (- 53)"
      unfolding r e53 by (intro mult_right_mono) simp_all
    also have "\<dots> < 1" by (simp add: power_int_minus field_simps)
    finally show ?thesis .
  next
    case False
    with L0 have L2: "L + 1 \<le> - 1" by simp
    have "q / 2 powi e \<le> of_int (2 ^ 53)"
      using bh pe unfolding split1 by (simp add: field_simps)
    then have "round_half_even (q / 2 powi e) \<le> 2 ^ 53" by (rule round_half_even_le)
    then have "(of_int (round_half_even (q / 2 powi e)) :: rat) \<le> of_int (2 ^ 53)"
      by (simp only: of_int_le_iff)
    then have "round_binary64 q \<le> of_int (2 ^ 53) * 2 powi e"
      unfolding r by (intro mult_right_mono) simp_all
    also have "\<dots> = 2 powi (L + 1)" unfolding split1 by simp
    also have "\<dots> \<le> 2 powi (- 1)" using L2 by (intro power_int_increasing) simp_all
    also have "\<dots> < 1" by (simp add: power_int_minus)
    finally show ?thesis .
  qed
  with pos show ?thesis ..
qed

section \<open>Properties of the normalised variant\<close>

text \<open>
  For a modulus up to \<open>2 ^ 52\<close> and a raw value in \<open>[0, m)\<close> the two conversions and the
  addition of \<open>0.5\<close> are exact, and the rounded quotient lies strictly between \<open>0\<close> and \<open>1\<close>.
  The loop of the normalised variant is the loop of the raw variant with the transform
  applied to each appended value.
\<close>

lemma round_to_float_finite:
  assumes "round_binary64 q = r" and "- (2 ^ 1024) < r" and "r < 2 ^ 1024"
  shows "round_to_float q = Finite r"
  using assms by (simp add: round_to_float_def Let_def)

lemma float_of_int_exact:
  assumes "0 \<le> n" and "n < 2 ^ 53"
  shows "float_of_int n = Inr (Finite (of_int n))"
proof -
  have r: "round_binary64 (of_int n) = of_int n" using assms by (rule round_binary64_int)
  have "(of_int n :: rat) < of_int (2 ^ 53)" using assms(2) by (simp only: of_int_less_iff)
  also have "\<dots> \<le> 2 ^ 1024" by simp
  finally have hi: "(of_int n :: rat) < 2 ^ 1024" .
  have "- (2 ^ 1024) < (0::rat)" by simp
  also have "\<dots> \<le> of_int n" using assms(1) by simp
  finally have lo: "- (2 ^ 1024) < (of_int n :: rat)" .
  from round_to_float_finite [OF r lo hi] show ?thesis by (simp add: float_of_int_def)
qed

lemma midpoint_normalize_small:
  assumes "0 \<le> n" and "n < m" and "m \<le> 2 ^ 52"
  shows "\<exists>q. midpoint_normalize m n = Inr (Finite q) \<and> 0 < q \<and> q < 1"
proof -
  have n52: "n < 2 ^ 52" and m0: "0 < m" using assms by simp_all
  have fn: "float_of_int n = Inr (Finite (of_int n))"
    using assms(1) n52 by (intro float_of_int_exact) simp_all
  have fm: "float_of_int m = Inr (Finite (of_int m))"
    using m0 assms(3) by (intro float_of_int_exact) simp_all
  have rh: "round_binary64 (of_int n + 1 / 2) = of_int n + 1 / 2"
    using assms(1) n52 by (rule round_binary64_half)
  have "(of_int n :: rat) < of_int (2 ^ 52)" using n52 by (simp only: of_int_less_iff)
  then have "(of_int n + 1 / 2 :: rat) < 2 ^ 52 + 1 / 2" by simp
  also have "\<dots> \<le> 2 ^ 1024" by simp
  finally have hi: "(of_int n + 1 / 2 :: rat) < 2 ^ 1024" .
  have "- (2 ^ 1024) < (0::rat)" by simp
  also have "\<dots> \<le> of_int n + 1 / 2" using assms(1) by simp
  finally have lo: "- (2 ^ 1024) < (of_int n + 1 / 2 :: rat)" .
  have add: "float_add (Finite (of_int n)) (Finite (1 / 2)) = Finite (of_int n + 1 / 2)"
    using round_to_float_finite [OF rh lo hi] by simp
  define q :: rat where "q = (of_int n + 1 / 2) / of_int m"
  have mr: "(0::rat) < of_int m" using m0 by simp
  have m52: "(of_int m :: rat) \<le> 2 ^ 52"
  proof -
    have "(of_int m :: rat) \<le> of_int (2 ^ 52)" using assms(3) by (simp only: of_int_le_iff)
    then show ?thesis by simp
  qed
  have "n + 1 \<le> m" using assms(2) by simp
  then have nm: "(of_int n :: rat) + 1 \<le> of_int m"
    by (metis of_int_1 of_int_add of_int_le_iff)
  have "of_int m / 2 ^ 53 \<le> (1 / 2 :: rat)" using m52 by simp
  also have "\<dots> \<le> of_int n + 1 / 2" using assms(1) by simp
  finally have "1 / 2 ^ 53 \<le> q" using mr by (simp add: q_def field_simps)
  moreover have "q \<le> 1 - 1 / 2 ^ 53"
  proof -
    have "of_int m / 2 ^ 53 \<le> (1 / 2 :: rat)" using m52 by simp
    then have "of_int n + 1 / 2 \<le> of_int m - of_int m / (2 ^ 53 :: rat)" using nm by simp
    also have "\<dots> = (1 - 1 / 2 ^ 53) * of_int m" by (simp add: field_simps)
    finally show ?thesis using mr by (simp add: q_def pos_divide_le_eq)
  qed
  ultimately have r: "0 < round_binary64 q \<and> round_binary64 q < 1"
    by (rule round_binary64_unit)
  then have "- (2 ^ 1024) < round_binary64 q" "round_binary64 q < 2 ^ 1024"
  proof -
    have "- (2 ^ 1024) < (0::rat)" by simp
    with r show "- (2 ^ 1024) < round_binary64 q" by simp
    have "(1::rat) \<le> 2 ^ 1024" by simp
    with r show "round_binary64 q < 2 ^ 1024" by simp
  qed
  from round_to_float_finite [OF refl this]
  have "round_to_float q = Finite (round_binary64 q)" .
  then have "midpoint_normalize m n = Inr (Finite (round_binary64 q))"
    using fn fm add m0 by (simp add: midpoint_normalize_def q_def)
  with r show ?thesis by blast
qed

lemma midpoint_normalize_all_append:
  "midpoint_normalize_all m (xs @ ys) =
     (case midpoint_normalize_all m xs of
        Inl e \<Rightarrow> Inl e
      | Inr vs \<Rightarrow>
          (case midpoint_normalize_all m ys of Inl e \<Rightarrow> Inl e | Inr ws \<Rightarrow> Inr (vs @ ws)))"
  by (induction xs) (auto split: sum.splits)

lemma midpoint_normalize_all_small:
  assumes "m \<le> 2 ^ 52" and "\<forall>x\<in>set xs. 0 \<le> x \<and> x < m"
  shows "\<exists>vs. midpoint_normalize_all m xs = Inr vs \<and> length vs = length xs
           \<and> (\<forall>i<length xs. midpoint_normalize m (xs ! i) = Inr (vs ! i))
           \<and> (\<forall>v\<in>set vs. \<exists>q. v = Finite q \<and> 0 < q \<and> q < 1)"
  using assms(2)
proof (induction xs)
  case Nil
  then show ?case by simp
next
  case (Cons x xs)
  then obtain vs where vs: "midpoint_normalize_all m xs = Inr vs" "length vs = length xs"
      "\<forall>i<length xs. midpoint_normalize m (xs ! i) = Inr (vs ! i)"
      "\<forall>v\<in>set vs. \<exists>q. v = Finite q \<and> 0 < q \<and> q < 1"
    by auto
  from Cons.prems have "0 \<le> x" "x < m" by simp_all
  from midpoint_normalize_small [OF this assms(1)]
  obtain q where q: "midpoint_normalize m x = Inr (Finite q)" "0 < q" "q < 1" by blast
  have nth: "\<forall>i<length (x # xs). midpoint_normalize m ((x # xs) ! i) = Inr ((Finite q # vs) ! i)"
  proof (intro allI impI)
    fix i assume "i < length (x # xs)"
    then show "midpoint_normalize m ((x # xs) ! i) = Inr ((Finite q # vs) ! i)"
      using q(1) vs(3) by (cases i) auto
  qed
  from q vs nth show ?case
    by (intro exI [of _ "Finite q # vs"]) auto
qed

lemma urmcg_loop_unfold:
  "urmcg_loop a c m x0 ub it cur facc =
     (if it \<le> ub then
        (if m = 0 then Inl ZeroDivisionError
         else (case midpoint_normalize m ((a * cur + c) mod m) of
                 Inl e \<Rightarrow> Inl e
               | Inr v \<Rightarrow>
                   (if (a * cur + c) mod m = x0 then Inr (facc @ [v])
                    else urmcg_loop a c m x0 ub (it + 1) ((a * cur + c) mod m) (facc @ [v]))))
      else Inr facc)"
  by (subst urmcg_loop.simps) (simp add: midpoint_normalize_def Let_def split: sum.splits)

lemma urmcg_loop_refines:
  assumes "midpoint_normalize_all m acc = Inr facc"
  shows "urmcg_loop a c m x0 ub it cur facc =
           (case rmcg_loop a c m x0 ub it cur acc of
              Inl e \<Rightarrow> Inl e
            | Inr xs \<Rightarrow> midpoint_normalize_all m xs)"
  using assms
proof (induction a c m x0 ub it cur acc arbitrary: facc rule: rmcg_loop.induct)
  case (1 a c m x0 ub it cur acc)
  let ?n = "(a * cur + c) mod m"
  show ?case
  proof (cases "it \<le> ub")
    case False
    then have "rmcg_loop a c m x0 ub it cur acc = Inr acc"
      by (subst rmcg_loop.simps) simp
    moreover from False have "urmcg_loop a c m x0 ub it cur facc = Inr facc"
      by (subst urmcg_loop_unfold) simp
    ultimately show ?thesis using "1.prems" by simp
  next
    case it: True
    show ?thesis
    proof (cases "m = 0")
      case True
      with it have "rmcg_loop a c m x0 ub it cur acc = Inl ZeroDivisionError"
        by (subst rmcg_loop.simps) simp
      moreover from True it have "urmcg_loop a c m x0 ub it cur facc = Inl ZeroDivisionError"
        by (subst urmcg_loop_unfold) simp
      ultimately show ?thesis by simp
    next
      case m: False
      show ?thesis
      proof (cases "midpoint_normalize m ?n")
        case (Inl e)
        from rmcg_loop_inv [OF m, of a c x0 ub it cur acc] it
        obtain ys where ys: "rmcg_loop a c m x0 ub it cur acc = Inr (acc @ ys)"
          "\<forall>i<length ys. ys ! i = (a * ((cur # ys) ! i) + c) mod m" "ys \<noteq> []"
          by blast
        then obtain y ys' where yy: "ys = y # ys'" by (cases ys) auto
        with ys(2) have "y = ?n" by auto
        with yy Inl "1.prems" have "midpoint_normalize_all m (acc @ ys) = Inl e"
          by (simp add: midpoint_normalize_all_append)
        moreover from it m Inl have "urmcg_loop a c m x0 ub it cur facc = Inl e"
          by (subst urmcg_loop_unfold) simp
        ultimately show ?thesis using ys(1) by simp
      next
        case (Inr v)
        have acc': "midpoint_normalize_all m (acc @ [?n]) = Inr (facc @ [v])"
          using "1.prems" Inr by (simp add: midpoint_normalize_all_append)
        show ?thesis
        proof (cases "?n = x0")
          case True
          with it m have "rmcg_loop a c m x0 ub it cur acc = Inr (acc @ [?n])"
            by (subst rmcg_loop.simps) simp
          moreover from True it m Inr have "urmcg_loop a c m x0 ub it cur facc = Inr (facc @ [v])"
            by (subst urmcg_loop_unfold) simp
          ultimately show ?thesis using acc' by simp
        next
          case False
          from it m False
          have "rmcg_loop a c m x0 ub it cur acc = rmcg_loop a c m x0 ub (it + 1) ?n (acc @ [?n])"
            by (subst rmcg_loop.simps) (simp add: Let_def)
          moreover from it m False Inr
          have "urmcg_loop a c m x0 ub it cur facc = urmcg_loop a c m x0 ub (it + 1) ?n (facc @ [v])"
            by (subst urmcg_loop_unfold) simp
          moreover note "1.IH" [OF it m refl refl False acc']
          ultimately show ?thesis by simp
        qed
      qed
    qed
  qed
qed

text \<open>
  At the modulus \<open>2 ^ 53\<close> the raw value \<open>2 ^ 53 - 1\<close> is still converted exactly, but
  \<open>2 ^ 53 - 1 + 0.5\<close> lies halfway between two floats and rounds to the even one,
  \<open>2 ^ 53\<close>; the quotient by the modulus is then \<open>1.0\<close>.
\<close>

lemma round_binary64_tie: "round_binary64 (2 ^ 53 - 1 / 2) = 2 ^ 53"
proof -
  have il: "ilog2 \<bar>2 ^ 53 - 1 / 2 :: rat\<bar> = 52"
    by (rule ilog2_unique) simp_all
  have fl: "\<lfloor>2 ^ 53 - 1 / 2 :: rat\<rfloor> = 2 ^ 53 - 1"
    by (rule floor_unique) simp_all
  have "round_half_even (2 ^ 53 - 1 / 2) = 2 ^ 53"
    unfolding round_half_even_def fl by (simp add: Let_def)
  then show ?thesis
    unfolding round_binary64_def il by (simp add: Let_def)
qed

lemma round_binary64_2_53: "round_binary64 (2 ^ 53) = 2 ^ 53"
proof -
  have il: "ilog2 \<bar>2 ^ 53 :: rat\<bar> = 53"
    by (rule ilog2_unique) simp_all
  have "(2 ^ 53 :: rat) / 2 powi (max (ilog2 \<bar>2 ^ 53 :: rat\<bar> - 52) (- 1074)) = of_int (2 ^ 52)"
    unfolding il by simp
  then show ?thesis
    by (rule round_binary64_exact [rotated]) simp
qed

lemma midpoint_normalize_one: "midpoint_normalize (2 ^ 53) (2 ^ 53 - 1) = Inr (Finite 1)"
proof -
  have fx: "float_of_int (2 ^ 53 - 1) = Inr (Finite (2 ^ 53 - 1))"
    using float_of_int_exact [of "2 ^ 53 - 1"] by simp
  have "round_to_float (2 ^ 53 - 1 / 2) = Finite (2 ^ 53)"
    by (rule round_to_float_finite [OF round_binary64_tie]) simp_all
  then have add: "float_add (Finite (2 ^ 53 - 1)) (Finite (1 / 2)) = Finite (2 ^ 53)"
    by simp
  have "round_to_float (2 ^ 53) = Finite (2 ^ 53)"
    by (rule round_to_float_finite [OF round_binary64_2_53]) simp_all
  then have fm: "float_of_int (2 ^ 53) = Inr (Finite (2 ^ 53))"
    by (simp add: float_of_int_def)
  have "round_binary64 1 = 1" using round_binary64_int [of 1] by simp
  then have "round_to_float 1 = Finite 1"
    by (rule round_to_float_finite) simp_all
  then have "float_truediv (Finite (2 ^ 53)) (Finite (2 ^ 53)) = Inr (Finite 1)"
    by simp
  with fx add fm show ?thesis by (simp add: midpoint_normalize_def)
qed

text \<open>
  C3, as stated: for every \<open>m > 0\<close> every element of the normalised list lies strictly
  inside \<open>(0, 1)\<close>. With \<open>a = 0\<close>, \<open>c = 2 ^ 53 - 1\<close>, \<open>m = 2 ^ 53\<close>, seed \<open>0\<close> and cap \<open>0\<close> the
  raw list is \<open>[2 ^ 53 - 1]\<close> and the normalised list is \<open>[1.0]\<close>.
\<close>

theorem uniform_reaches_one_counterexample:
  "uniform_random_from_mixed_congruential_generator 0 (2 ^ 53 - 1) (2 ^ 53) 0 0 = Inr [Finite 1]"
proof -
  have n: "(0 * 0 + (2 ^ 53 - 1)) mod 2 ^ 53 = (2 ^ 53 - 1 :: int)" by simp
  have "urmcg_loop 0 (2 ^ 53 - 1) (2 ^ 53) 0 0 1 (2 ^ 53 - 1) [Finite 1] = Inr [Finite 1]"
    by (subst urmcg_loop_unfold) simp
  then have "urmcg_loop 0 (2 ^ 53 - 1) (2 ^ 53) 0 0 0 0 [] = Inr [Finite 1]"
    by (subst urmcg_loop_unfold) (simp only: n midpoint_normalize_one, simp)
  then show ?thesis by (simp only: uniform_random_from_mixed_congruential_generator_def)
qed

text \<open>
  C3, amended. For all inputs, the normalised variant returns what the raw variant
  returns with \<open>(raw + 0.5) / m\<close> applied elementwise in float arithmetic, and raises
  when the raw variant raises or when a conversion of that transform overflows. For
  \<open>0 < m \<le> 2 ^ 52\<close> both variants return, the lists have the same length, and every
  normalised element is a finite float strictly inside \<open>(0, 1)\<close>. (For a larger modulus
  an element can round to \<open>1.0\<close>.)
\<close>

theorem uniform_refines_raw:
  "uniform_random_from_mixed_congruential_generator a c m x0 ub =
     (case random_mixed_congruential_generator a c m x0 ub of
        Inl e \<Rightarrow> Inl e
      | Inr raws \<Rightarrow> midpoint_normalize_all m raws)
   \<and> (0 < m \<and> m \<le> 2 ^ 52 \<longrightarrow>
        (\<exists>raws vs. random_mixed_congruential_generator a c m x0 ub = Inr raws
            \<and> uniform_random_from_mixed_congruential_generator a c m x0 ub = Inr vs
            \<and> length vs = length raws
            \<and> (\<forall>i<length raws. midpoint_normalize m (raws ! i) = Inr (vs ! i))
            \<and> (\<forall>v\<in>set vs. \<exists>q. v = Finite q \<and> 0 < q \<and> q < 1)))"
proof -
  have ref: "uniform_random_from_mixed_congruential_generator a c m x0 ub =
     (case random_mixed_congruential_generator a c m x0 ub of
        Inl e \<Rightarrow> Inl e
      | Inr raws \<Rightarrow> midpoint_normalize_all m raws)"
    unfolding uniform_random_from_mixed_congruential_generator_def
      random_mixed_congruential_generator_def
    by (rule urmcg_loop_refines) simp
  have small: "\<exists>raws vs. random_mixed_congruential_generator a c m x0 ub = Inr raws
            \<and> uniform_random_from_mixed_congruential_generator a c m x0 ub = Inr vs
            \<and> length vs = length raws
            \<and> (\<forall>i<length raws. midpoint_normalize m (raws ! i) = Inr (vs ! i))
            \<and> (\<forall>v\<in>set vs. \<exists>q. v = Finite q \<and> 0 < q \<and> q < 1)"
    if m: "0 < m" "m \<le> 2 ^ 52"
  proof -
    from m have "m \<noteq> 0" by simp
    from rmcg_loop_inv [OF this, of a c x0 ub 0 x0 "[]"]
    obtain xs where xs: "random_mixed_congruential_generator a c m x0 ub = Inr xs"
      "\<forall>i<length xs. xs ! i = (a * ((x0 # xs) ! i) + c) mod m"
      unfolding random_mixed_congruential_generator_def by auto
    have "\<forall>x\<in>set xs. 0 \<le> x \<and> x < m"
    proof
      fix x assume "x \<in> set xs"
      then obtain i where "i < length xs" "x = xs ! i" by (auto simp: in_set_conv_nth)
      with xs(2) have "x = (a * ((x0 # xs) ! i) + c) mod m" by simp
      with m(1) show "0 \<le> x \<and> x < m" by simp
    qed
    from midpoint_normalize_all_small [OF m(2) this]
    obtain vs where vs: "midpoint_normalize_all m xs = Inr vs" "length vs = length xs"
      "\<forall>i<length xs. midpoint_normalize m (xs ! i) = Inr (vs ! i)"
      "\<forall>v\<in>set vs. \<exists>q. v = Finite q \<and> 0 < q \<and> q < 1"
      by blast
    from ref xs(1) vs(1)
    have "uniform_random_from_mixed_congruential_generator a c m x0 ub = Inr vs" by simp
    with xs(1) vs show ?thesis by blast
  qed
  from ref small show ?thesis by blast
qed

theorem uniform_refines_raw_witness:
  "(0::int) < 16 \<and> (16::int) \<le> 2 ^ 52
   \<and> (\<exists>raws vs. random_mixed_congruential_generator 5 3 16 1 20 = Inr raws
          \<and> uniform_random_from_mixed_congruential_generator 5 3 16 1 20 = Inr vs
          \<and> length vs = length raws
          \<and> (\<forall>i<length raws. midpoint_normalize 16 (raws ! i) = Inr (vs ! i))
          \<and> (\<forall>v\<in>set vs. \<exists>q. v = Finite q \<and> 0 < q \<and> q < 1))"
proof -
  have h: "(0::int) < 16 \<and> (16::int) \<le> 2 ^ 52" by simp
  from uniform_refines_raw [of 5 3 16 1 20] h show ?thesis by blast
qed

section \<open>Properties of the float operations of the samplers\<close>

text \<open>
  A dyadic rational with a numerator below \<open>2 ^ 53\<close> is a float and is rounded to
  itself. For operands that are not NaN, \<^verbatim>\<open>not (x < y)\<close> is \<^verbatim>\<open>y <= x\<close>.
\<close>

lemma round_to_float_zero: "round_to_float 0 = Finite 0"
  by (simp add: round_to_float_def round_binary64_def)

lemma round_to_float_dyadic:
  assumes "0 < k" and "k < 2 ^ 53" and "j \<le> 1074"
  shows "round_to_float (of_int k / 2 ^ j) = Finite (of_int k / 2 ^ j)"
proof -
  have "(of_int k :: rat) < of_int (2 ^ 53)" using assms(2) by (simp only: of_int_less_iff)
  then have k53: "(of_int k :: rat) < 2 ^ 53" by simp
  have "(2::rat) powi (53 - int j) = 2 ^ 53 / 2 ^ j"
    by (simp add: power_int_diff)
  moreover have "(of_int k :: rat) / 2 ^ j < 2 ^ 53 / 2 ^ j"
    using k53 by (simp add: divide_strict_right_mono)
  ultimately have "(of_int k :: rat) / 2 ^ j < 2 powi (53 - int j)" by simp
  from round_binary64_dyadic [OF assms(1) assms(3) this]
  have r: "round_binary64 (of_int k / 2 ^ j) = of_int k / 2 ^ j" .
  have "(of_int k :: rat) / 2 ^ j \<le> of_int k" using assms(1)
    by (simp add: field_simps mult_le_cancel_left1)
  also have "\<dots> < 2 ^ 53" by (rule k53)
  also have "\<dots> \<le> (2::rat) ^ 1024" by simp
  finally have hi: "(of_int k :: rat) / 2 ^ j < 2 ^ 1024" .
  have "- (2 ^ 1024) < (0::rat)" by simp
  also have "\<dots> < of_int k / 2 ^ j" using assms(1) by simp
  finally have lo: "- (2 ^ 1024) < (of_int k :: rat) / 2 ^ j" .
  from round_to_float_finite [OF r lo hi] show ?thesis .
qed

lemma round_to_float_values:
  "round_to_float 1 = Finite 1"
  "round_to_float (1 / 2) = Finite (1 / 2)"
  "round_to_float (1 / 4) = Finite (1 / 4)"
  "round_to_float (1 / 16) = Finite (1 / 16)"
  using round_to_float_dyadic [of 1 0] round_to_float_dyadic [of 1 1]
    round_to_float_dyadic [of 1 2] round_to_float_dyadic [of 1 4]
  by simp_all

lemma float_not_lt_iff_le:
  assumes "x \<noteq> NaN" and "y \<noteq> NaN"
  shows "\<not> float_lt x y \<longleftrightarrow> float_le y x"
  using assms by (cases x; cases y) auto

section \<open>Properties of the acceptance-rejection sampler\<close>

text \<open>
  In the lemmas on the loop, trial \<open>i\<close> (counted from \<open>0\<close>) takes the values \<open>g (2 * i)\<close>
  and \<open>g (2 * i + 1)\<close> of the generator as \<^verbatim>\<open>first_random\<close> and \<^verbatim>\<open>second_random\<close>.
  With a nonzero \<open>m\<close> the division never raises: the loop returns at the first trial whose
  test holds, and runs through when none does.
\<close>

lemma float_truediv_defined:
  assumes "m \<noteq> Finite 0"
  shows "\<exists>ratio. float_truediv fx m = Inr ratio"
  using assms by (cases m; cases fx) auto

lemma ar_accepts_nonzero: "ar_accepts m fx u2 \<Longrightarrow> m \<noteq> Finite 0"
  by (auto simp: ar_accepts_def)

lemma gar_loop_step:
  assumes "m \<noteq> Finite 0"
  shows "gar_loop m a b f (Suc n) g vars =
           (if ar_accepts m (f (ar_candidate a b (g 0))) (g 1)
            then Inr (Some (g 0, g 1, f (ar_candidate a b (g 0))))
            else gar_loop m a b f n (\<lambda>j. g (Suc (Suc j)))
                   (Some (g 0, g 1, f (ar_candidate a b (g 0)))))"
proof -
  from float_truediv_defined [OF assms]
  obtain ratio where "float_truediv (f (ar_candidate a b (g 0))) m = Inr ratio" ..
  then show ?thesis
    by (simp add: random_uniform_0_1_def ar_accepts_def ar_candidate_def Let_def)
qed

lemma gar_loop_accept:
  assumes "m \<noteq> Finite 0" and "k < n"
    and "\<forall>i<k. \<not> ar_accepts m (f (ar_candidate a b (g (2 * i)))) (g (2 * i + 1))"
    and "ar_accepts m (f (ar_candidate a b (g (2 * k)))) (g (2 * k + 1))"
  shows "gar_loop m a b f n g vars =
           Inr (Some (g (2 * k), g (2 * k + 1), f (ar_candidate a b (g (2 * k)))))"
  using assms(2-)
proof (induction n arbitrary: g k vars)
  case 0
  then show ?case by simp
next
  case (Suc n)
  show ?case
  proof (cases k)
    case 0
    with Suc.prems(3) show ?thesis
      by (subst gar_loop_step [OF assms(1)]) simp
  next
    case (Suc k')
    let ?g = "\<lambda>j. g (Suc (Suc j))"
    from Suc Suc.prems(2) have "\<not> ar_accepts m (f (ar_candidate a b (g (2 * 0)))) (g (2 * 0 + 1))"
      by blast
    then have rej: "\<not> ar_accepts m (f (ar_candidate a b (g 0))) (g 1)" by simp
    have k': "k' < n" using Suc Suc.prems(1) by simp
    have pre: "\<forall>i<k'. \<not> ar_accepts m (f (ar_candidate a b (?g (2 * i)))) (?g (2 * i + 1))"
    proof (intro allI impI)
      fix i assume "i < k'"
      then have "Suc i < k" using Suc by simp
      with Suc.prems(2)
      have "\<not> ar_accepts m (f (ar_candidate a b (g (2 * Suc i)))) (g (2 * Suc i + 1))"
        by blast
      then show "\<not> ar_accepts m (f (ar_candidate a b (?g (2 * i)))) (?g (2 * i + 1))"
        by simp
    qed
    have acc: "ar_accepts m (f (ar_candidate a b (?g (2 * k')))) (?g (2 * k' + 1))"
      using Suc.prems(3) Suc by simp
    from Suc.IH [OF k' pre acc, of "Some (g 0, g 1, f (ar_candidate a b (g 0)))"] rej Suc
    show ?thesis
      by (subst gar_loop_step [OF assms(1)]) simp
  qed
qed

lemma gar_loop_exhaust:
  assumes "m \<noteq> Finite 0"
    and "\<forall>i<n. \<not> ar_accepts m (f (ar_candidate a b (g (2 * i)))) (g (2 * i + 1))"
  shows "gar_loop m a b f n g vars =
           Inr (if n = 0 then vars
                else Some (g (2 * (n - 1)), g (2 * (n - 1) + 1),
                           f (ar_candidate a b (g (2 * (n - 1))))))"
  using assms(2)
proof (induction n arbitrary: g vars)
  case 0
  then show ?case by simp
next
  case (Suc n)
  let ?g = "\<lambda>j. g (Suc (Suc j))"
  from Suc.prems have "\<not> ar_accepts m (f (ar_candidate a b (g (2 * 0)))) (g (2 * 0 + 1))"
    by blast
  then have rej: "\<not> ar_accepts m (f (ar_candidate a b (g 0))) (g 1)" by simp
  have pre: "\<forall>i<n. \<not> ar_accepts m (f (ar_candidate a b (?g (2 * i)))) (?g (2 * i + 1))"
  proof (intro allI impI)
    fix i assume "i < n"
    then have "Suc i < Suc n" by simp
    with Suc.prems
    have "\<not> ar_accepts m (f (ar_candidate a b (g (2 * Suc i)))) (g (2 * Suc i + 1))"
      by blast
    then show "\<not> ar_accepts m (f (ar_candidate a b (?g (2 * i)))) (?g (2 * i + 1))"
      by simp
  qed
  from Suc.IH [OF pre, of "Some (g 0, g 1, f (ar_candidate a b (g 0)))"] rej
  show ?case
    by (subst gar_loop_step [OF assms(1)]) (cases n, simp_all)
qed

lemma gar_loop_bound:
  assumes "m \<noteq> Finite 0" and "0 < n"
  shows "\<exists>t. gar_loop m a b f n g vars = Inr (Some t)"
  using assms(2)
proof (induction n arbitrary: g vars)
  case 0
  then show ?case by simp
next
  case (Suc n)
  show ?case
  proof (cases n)
    case 0
    then show ?thesis by (subst gar_loop_step [OF assms(1)]) simp
  next
    case (Suc n')
    then have "0 < n" by simp
    from Suc.IH [OF this] show ?thesis
      by (subst gar_loop_step [OF assms(1)]) simp
  qed
qed

lemma gar_loop_zero_divisor:
  "gar_loop (Finite 0) a b f (Suc n) g vars = Inl ZeroDivisionError"
  by (simp add: random_uniform_0_1_def Let_def)

text \<open>
  C4. In the bound-supplied variant, trial \<open>i\<close> draws \<open>u1 = g (2 * i)\<close> and
  \<open>u2 = g (2 * i + 1)\<close>, forms the candidate \<open>x = a + (b - a) * u1\<close> and accepts exactly when
  \<open>u2 \<le> function x / m\<close>, all in float arithmetic: when the trials before \<open>k\<close> fail this
  test and trial \<open>k\<close>, below the cap, passes it, the call returns \<open>function x\<close> for the
  candidate of trial \<open>k\<close>, the density evaluation, not the candidate. This holds for every
  nonzero \<open>m\<close>, every \<open>a\<close>, \<open>b\<close> and every draws, in particular for \<open>a < b\<close>, \<open>m > 0\<close> and
  draws in \<open>[0, 1]\<close>.
\<close>

theorem gar_accepts_and_returns_image:
  assumes "m \<noteq> Finite 0" and "k < nat upper_limit"
    and "\<forall>i<k. \<not> ar_accepts m (function (ar_candidate a b (g (2 * i)))) (g (2 * i + 1))"
    and "ar_accepts m (function (ar_candidate a b (g (2 * k)))) (g (2 * k + 1))"
  shows "generate_acceptance_rejection m a b function upper_limit g =
           Inr (function (ar_candidate a b (g (2 * k))))"
  using gar_loop_accept [OF assms, of None]
  by (simp add: generate_acceptance_rejection_def)

theorem gar_accepts_and_returns_image_witness:
  "Finite 1 \<noteq> Finite 0 \<and> (1::nat) < nat 3
   \<and> ar_candidate (Finite 0) (Finite 1) (Finite (1 / 4)) = Finite (1 / 4)
   \<and> \<not> ar_accepts (Finite 1) (float_mul (Finite (1 / 4)) (Finite (1 / 4))) (Finite (1 / 2))
   \<and> ar_candidate (Finite 0) (Finite 1) (Finite (1 / 2)) = Finite (1 / 2)
   \<and> ar_accepts (Finite 1) (float_mul (Finite (1 / 2)) (Finite (1 / 2))) (Finite (1 / 8))
   \<and> generate_acceptance_rejection (Finite 1) (Finite 0) (Finite 1) (\<lambda>x. float_mul x x) 3
        (\<lambda>n. if n = 0 then Finite (1 / 4) else if n = 3 then Finite (1 / 8) else Finite (1 / 2))
       = Inr (Finite (1 / 4))
   \<and> generate_acceptance_rejection (Finite 1) (Finite 0) (Finite 1) (\<lambda>x. float_mul x x) 3
        (\<lambda>n. if n = 0 then Finite (1 / 4) else if n = 3 then Finite (1 / 8) else Finite (1 / 2))
       \<noteq> Inr (Finite (1 / 2))"
proof -
  have c1: "ar_candidate (Finite 0) (Finite 1) (Finite (1 / 4)) = Finite (1 / 4)"
    and c2: "ar_candidate (Finite 0) (Finite 1) (Finite (1 / 2)) = Finite (1 / 2)"
    by (simp_all add: ar_candidate_def float_sub_def round_to_float_values)
  have r: "\<not> ar_accepts (Finite 1) (float_mul (Finite (1 / 4)) (Finite (1 / 4))) (Finite (1 / 2))"
    and a: "ar_accepts (Finite 1) (float_mul (Finite (1 / 2)) (Finite (1 / 2))) (Finite (1 / 8))"
    by (simp_all add: ar_accepts_def round_to_float_values)
  from gar_accepts_and_returns_image
    [of "Finite 1" 1 3 "\<lambda>x. float_mul x x" "Finite 0" "Finite 1"
        "\<lambda>n. if n = 0 then Finite (1 / 4) else if n = 3 then Finite (1 / 8) else Finite (1 / 2)"]
    c1 c2 r a
  have "generate_acceptance_rejection (Finite 1) (Finite 0) (Finite 1) (\<lambda>x. float_mul x x) 3
        (\<lambda>n. if n = 0 then Finite (1 / 4) else if n = 3 then Finite (1 / 8) else Finite (1 / 2))
       = Inr (Finite (1 / 4))"
    by (simp add: round_to_float_values)
  with c1 c2 r a show ?thesis by simp
qed

text \<open>
  C10. For \<open>upper_limit \<le> 0\<close> the loop body never runs, and the statements after the loop
  read unbound local variables: the call raises \<^verbatim>\<open>UnboundLocalError\<close>. A call that
  returns a value therefore has \<open>upper_limit \<ge> 1\<close>; and with \<open>upper_limit \<ge> 1\<close> and a nonzero
  \<open>m\<close> the call does return a value (accepted or not).
\<close>

theorem gar_unbound_without_trial:
  "(upper_limit \<le> 0 \<longrightarrow>
      generate_acceptance_rejection m a b function upper_limit g = Inl UnboundLocalError)
   \<and> ((\<exists>v. generate_acceptance_rejection m a b function upper_limit g = Inr v) \<longrightarrow>
        1 \<le> upper_limit)
   \<and> (m \<noteq> Finite 0 \<and> 1 \<le> upper_limit \<longrightarrow>
        (\<exists>v. generate_acceptance_rejection m a b function upper_limit g = Inr v))"
proof (intro conjI impI)
  assume "upper_limit \<le> 0"
  then show "generate_acceptance_rejection m a b function upper_limit g = Inl UnboundLocalError"
    by (simp add: generate_acceptance_rejection_def)
next
  assume r: "\<exists>v. generate_acceptance_rejection m a b function upper_limit g = Inr v"
  show "1 \<le> upper_limit"
  proof (rule ccontr)
    assume "\<not> 1 \<le> upper_limit"
    then have "nat upper_limit = 0" by simp
    then have "generate_acceptance_rejection m a b function upper_limit g = Inl UnboundLocalError"
      by (simp add: generate_acceptance_rejection_def)
    with r show False by simp
  qed
next
  assume "m \<noteq> Finite 0 \<and> 1 \<le> upper_limit"
  then have m: "m \<noteq> Finite 0" and n: "0 < nat upper_limit" by simp_all
  from gar_loop_bound [OF m n, of a b "function" g None]
  obtain t where "gar_loop m a b function (nat upper_limit) g None = Inr (Some t)" ..
  then show "\<exists>v. generate_acceptance_rejection m a b function upper_limit g = Inr v"
    by (cases t) (simp add: generate_acceptance_rejection_def)
qed

theorem gar_unbound_without_trial_witness:
  "generate_acceptance_rejection (Finite 1) (Finite 0) (Finite 1) (\<lambda>x. x) 0 (\<lambda>n. Finite (1 / 2))
     = Inl UnboundLocalError
   \<and> generate_acceptance_rejection (Finite 1) (Finite 0) (Finite 1) (\<lambda>x. x) (- 3)
       (\<lambda>n. Finite (1 / 2)) = Inl UnboundLocalError
   \<and> Finite 1 \<noteq> Finite 0 \<and> (1::int) \<le> 1
   \<and> (\<exists>v. generate_acceptance_rejection (Finite 1) (Finite 0) (Finite 1) (\<lambda>x. x) 1
            (\<lambda>n. Finite (1 / 2)) = Inr v)"
  using gar_unbound_without_trial [of 0 "Finite 1" "Finite 0" "Finite 1" "\<lambda>x. x" "\<lambda>n. Finite (1 / 2)"]
    gar_unbound_without_trial [of "- 3" "Finite 1" "Finite 0" "Finite 1" "\<lambda>x. x" "\<lambda>n. Finite (1 / 2)"]
    gar_unbound_without_trial [of 1 "Finite 1" "Finite 0" "Finite 1" "\<lambda>x. x" "\<lambda>n. Finite (1 / 2)"]
  by simp

text \<open>
  C5, on the code. When each of the \<open>upper_limit \<ge> 1\<close> trials is rejected, the
  bound-supplied variant raises nothing: it returns the image evaluated in the last trial,
  a rejected one. With \<open>m = 1\<close>, \<open>a = 0\<close>, \<open>b = 1\<close>, the density \<open>x\<close>, one trial and the draws
  \<open>0.25\<close> and \<open>0.75\<close>, the trial is rejected and the call returns \<open>0.25\<close>.
\<close>

theorem gar_exhaustion_returns_stale_image:
  assumes "m \<noteq> Finite 0" and "1 \<le> upper_limit"
    and "\<forall>i<nat upper_limit.
           \<not> ar_accepts m (function (ar_candidate a b (g (2 * i)))) (g (2 * i + 1))"
  shows "generate_acceptance_rejection m a b function upper_limit g =
           Inr (function (ar_candidate a b (g (2 * (nat upper_limit - 1)))))"
proof -
  from assms(2) have "nat upper_limit \<noteq> 0" by simp
  with gar_loop_exhaust [OF assms(1) assms(3), of None] show ?thesis
    by (simp add: generate_acceptance_rejection_def)
qed

theorem gar_exhaustion_returns_stale_image_witness:
  "Finite 1 \<noteq> Finite 0 \<and> (1::int) \<le> 1
   \<and> ar_candidate (Finite 0) (Finite 1) (Finite (1 / 4)) = Finite (1 / 4)
   \<and> \<not> ar_accepts (Finite 1) (Finite (1 / 4)) (Finite (3 / 4))
   \<and> generate_acceptance_rejection (Finite 1) (Finite 0) (Finite 1) (\<lambda>x. x) 1
        (\<lambda>n. if n = 0 then Finite (1 / 4) else Finite (3 / 4)) = Inr (Finite (1 / 4))"
proof -
  have c: "ar_candidate (Finite 0) (Finite 1) (Finite (1 / 4)) = Finite (1 / 4)"
    by (simp add: ar_candidate_def float_sub_def round_to_float_values)
  have r: "\<not> ar_accepts (Finite 1) (Finite (1 / 4)) (Finite (3 / 4))"
    by (simp add: ar_accepts_def round_to_float_values)
  from gar_exhaustion_returns_stale_image
    [of "Finite 1" 1 "\<lambda>x. x" "Finite 0" "Finite 1"
        "\<lambda>n. if n = 0 then Finite (1 / 4) else Finite (3 / 4)"] c r
  have "generate_acceptance_rejection (Finite 1) (Finite 0) (Finite 1) (\<lambda>x. x) 1
        (\<lambda>n. if n = 0 then Finite (1 / 4) else Finite (3 / 4)) = Inr (Finite (1 / 4))"
    by simp
  with c r show ?thesis by simp
qed

section \<open>Properties of the symbolic inversion helper\<close>

text \<open>
  C7, on the code. For the zero density the integral is \<open>0\<close> and the equation \<open>0 = r\<close> has
  no solution in \<open>x\<close>: the solver returns the empty list, and the function returns the pair
  of the integral and the empty list, as it returns every other result of the solver. No
  error is raised.
\<close>

theorem inversion_empty_result_is_success:
  "integrate_and_find_inverse (\<lambda>f. Inr ''0'') (\<lambda>F. Inr []) ''0'' = Inr (Some (''0'', []))"
  by (simp add: integrate_and_find_inverse_def)

section \<open>Properties of the inverse-transform sampler\<close>

text \<open>
  The invariant of the sampling loop: a returned batch is the accumulator followed by
  values that passed the bounds check, and its length is \<open>n_samples\<close> unless the accumulator
  was longer.
\<close>

lemma its_loop_inv:
  assumes "its_loop n ppf lb ub g acc = Some rvs"
  shows "length rvs = max (length acc) (nat n)
         \<and> (\<exists>new. rvs = acc @ new
               \<and> (\<forall>x\<in>set new. (case lb of None \<Rightarrow> True | Some l \<Rightarrow> \<not> float_lt x l)
                                \<and> (case ub of None \<Rightarrow> True | Some u \<Rightarrow> \<not> float_gt x u)))"
  using assms
proof (induction n ppf lb ub g acc rvs rule: its_loop.raw_induct [rotated 1, consumes 1])
  case (1 loop n ppf lb ub g acc rvs)
  show ?case
  proof (cases "int (length acc) < n")
    case False
    with "1"(2) have "rvs = acc" by simp
    with False show ?thesis by auto
  next
    case True
    let ?rv = "ppf (g 0)"
    let ?g = "\<lambda>n. g (Suc n)"
    show ?thesis
    proof (cases "(case lb of None \<Rightarrow> False | Some l \<Rightarrow> float_lt ?rv l)
                  \<or> (case ub of None \<Rightarrow> False | Some u \<Rightarrow> float_gt ?rv u)")
      case rej: True
      with True "1"(2) have "loop n ppf lb ub ?g acc = Some rvs"
        by (simp add: random_uniform_0_1_def)
      then show ?thesis by (rule "1"(1))
    next
      case acc: False
      with True "1"(2) have "loop n ppf lb ub ?g (acc @ [?rv]) = Some rvs"
        by (simp add: random_uniform_0_1_def)
      from "1"(1) [OF this]
      obtain new where len: "length rvs = max (length (acc @ [?rv])) (nat n)"
        and new: "rvs = (acc @ [?rv]) @ new"
          "\<forall>x\<in>set new. (case lb of None \<Rightarrow> True | Some l \<Rightarrow> \<not> float_lt x l)
                        \<and> (case ub of None \<Rightarrow> True | Some u \<Rightarrow> \<not> float_gt x u)"
        by blast
      from len True have "length rvs = max (length acc) (nat n)" by simp
      moreover from new(1) have "rvs = acc @ (?rv # new)" by simp
      moreover from acc new(2)
      have "\<forall>x\<in>set (?rv # new). (case lb of None \<Rightarrow> True | Some l \<Rightarrow> \<not> float_lt x l)
                        \<and> (case ub of None \<Rightarrow> True | Some u \<Rightarrow> \<not> float_gt x u)"
        by (auto split: option.splits)
      ultimately show ?thesis by blast
    qed
  qed
qed

text \<open>
  The loop returns as soon as enough draws have passed the check: when the first \<open>K\<close> draws
  hold as many passing values as are still missing, the batch is the accumulator followed
  by the first of them, in the order drawn. When no draw passes and a sample is still
  missing, the loop does not return.
\<close>

lemma its_loop_returns:
  assumes "nat n - length acc
             \<le> length (filter (\<lambda>rv. \<not> float_lt rv lb \<and> \<not> float_gt rv ub)
                         (map (\<lambda>k. ppf (g k)) [0..<K]))"
  shows "its_loop n ppf (Some lb) (Some ub) g acc =
           Some (acc @ take (nat n - length acc)
                         (filter (\<lambda>rv. \<not> float_lt rv lb \<and> \<not> float_gt rv ub)
                            (map (\<lambda>k. ppf (g k)) [0..<K])))"
  using assms
proof (induction K arbitrary: g acc)
  case 0
  then have "\<not> int (length acc) < n" by simp
  then show ?case by (subst its_loop.simps) simp
next
  case (Suc K)
  let ?P = "\<lambda>rv. \<not> float_lt rv lb \<and> \<not> float_gt rv ub"
  let ?g = "\<lambda>n. g (Suc n)"
  have shift: "map (\<lambda>k. ppf (g k)) [0..<Suc K] = ppf (g 0) # map (\<lambda>k. ppf (?g k)) [0..<K]"
    by (simp add: upt_conv_Cons map_Suc_upt [symmetric] del: upt_Suc)
  show ?case
  proof (cases "int (length acc) < n")
    case False
    then have "nat n - length acc = 0" by simp
    with False show ?thesis by (subst its_loop.simps) simp
  next
    case lt: True
    show ?thesis
    proof (cases "?P (ppf (g 0))")
      case True
      from Suc.prems True lt
      have "nat n - length (acc @ [ppf (g 0)])
              \<le> length (filter ?P (map (\<lambda>k. ppf (?g k)) [0..<K]))"
        unfolding shift by simp
      from Suc.IH [OF this]
      have "its_loop n ppf (Some lb) (Some ub) ?g (acc @ [ppf (g 0)]) =
              Some ((acc @ [ppf (g 0)]) @ take (nat n - length (acc @ [ppf (g 0)]))
                     (filter ?P (map (\<lambda>k. ppf (?g k)) [0..<K])))" .
      moreover from lt obtain d where d: "nat n - length acc = Suc d"
        by (cases "nat n - length acc") auto
      moreover from d have "nat n - Suc (length acc) = d" by simp
      ultimately show ?thesis
        using True lt unfolding shift
        by (subst its_loop.simps) (simp add: random_uniform_0_1_def)
    next
      case False
      from Suc.prems False
      have "nat n - length acc \<le> length (filter ?P (map (\<lambda>k. ppf (?g k)) [0..<K]))"
        unfolding shift by simp
      from Suc.IH [OF this] False lt show ?thesis
        unfolding shift
        by (subst its_loop.simps) (auto simp add: random_uniform_0_1_def)
    qed
  qed
qed

lemma its_loop_all_rejected:
  assumes "\<forall>k. float_lt (ppf (g k)) lb \<or> float_gt (ppf (g k)) ub" and "int (length acc) < n"
  shows "its_loop n ppf (Some lb) (Some ub) g acc = None"
proof (cases "its_loop n ppf (Some lb) (Some ub) g acc")
  case None
  then show ?thesis .
next
  case (Some rvs)
  then have "(\<forall>k. float_lt (ppf (g k)) lb \<or> float_gt (ppf (g k)) ub) \<and> int (length acc) < n
               \<longrightarrow> False"
  proof (induction n ppf "Some lb" "Some ub" g acc rvs
      rule: its_loop.raw_induct [rotated 1, consumes 1])
    case (1 loop n ppf g acc rvs)
    show ?case
    proof
      assume h: "(\<forall>k. float_lt (ppf (g k)) lb \<or> float_gt (ppf (g k)) ub)
                   \<and> int (length acc) < n"
      then have rej: "float_lt (ppf (g 0)) lb \<or> float_gt (ppf (g 0)) ub" by blast
      with h "1"(2) have "loop n ppf (Some lb) (Some ub) (\<lambda>n. g (Suc n)) acc = Some rvs"
        by (simp add: random_uniform_0_1_def)
      from "1"(1) [OF this] h show False by blast
    qed
  qed
  with assms show ?thesis by blast
qed

text \<open>
  The loop of the user-inverse variant is a copy of the loop of the catalog variant: the
  two agree on all arguments.
\<close>

lemma uits_loop_its_loop:
  assumes "uits_loop n f lb ub g acc = Some rvs"
  shows "its_loop n f lb ub g acc = Some rvs"
  using assms
proof (induction n f lb ub g acc rvs rule: uits_loop.raw_induct [rotated 1, consumes 1])
  case (1 loop n f lb ub g acc rvs)
  show ?case
  proof (cases "int (length acc) < n")
    case False
    with "1"(2) show ?thesis by (subst its_loop.simps) simp
  next
    case True
    show ?thesis
    proof (cases "(case lb of None \<Rightarrow> False | Some l \<Rightarrow> float_lt (f (g 0)) l)
                  \<or> (case ub of None \<Rightarrow> False | Some u \<Rightarrow> float_gt (f (g 0)) u)")
      case rej: True
      with True "1"(2) have "loop n f lb ub (\<lambda>n. g (Suc n)) acc = Some rvs"
        by (simp add: random_uniform_0_1_def)
      from "1"(1) [OF this] True rej show ?thesis
        by (subst its_loop.simps) (simp add: random_uniform_0_1_def)
    next
      case acc: False
      with True "1"(2) have "loop n f lb ub (\<lambda>n. g (Suc n)) (acc @ [f (g 0)]) = Some rvs"
        by (simp add: random_uniform_0_1_def)
      from "1"(1) [OF this] True acc show ?thesis
        by (subst its_loop.simps) (simp add: random_uniform_0_1_def)
    qed
  qed
qed

lemma its_loop_uits_loop:
  assumes "its_loop n f lb ub g acc = Some rvs"
  shows "uits_loop n f lb ub g acc = Some rvs"
  using assms
proof (induction n f lb ub g acc rvs rule: its_loop.raw_induct [rotated 1, consumes 1])
  case (1 loop n f lb ub g acc rvs)
  show ?case
  proof (cases "int (length acc) < n")
    case False
    with "1"(2) show ?thesis by (subst uits_loop.simps) simp
  next
    case True
    show ?thesis
    proof (cases "(case lb of None \<Rightarrow> False | Some l \<Rightarrow> float_lt (f (g 0)) l)
                  \<or> (case ub of None \<Rightarrow> False | Some u \<Rightarrow> float_gt (f (g 0)) u)")
      case rej: True
      with True "1"(2) have "loop n f lb ub (\<lambda>n. g (Suc n)) acc = Some rvs"
        by (simp add: random_uniform_0_1_def)
      from "1"(1) [OF this] True rej show ?thesis
        by (subst uits_loop.simps) (simp add: random_uniform_0_1_def)
    next
      case acc: False
      with True "1"(2) have "loop n f lb ub (\<lambda>n. g (Suc n)) (acc @ [f (g 0)]) = Some rvs"
        by (simp add: random_uniform_0_1_def)
      from "1"(1) [OF this] True acc show ?thesis
        by (subst uits_loop.simps) (simp add: random_uniform_0_1_def)
    qed
  qed
qed

lemma uits_loop_eq: "uits_loop n f lb ub g acc = its_loop n f lb ub g acc"
proof (cases "its_loop n f lb ub g acc")
  case (Some rvs)
  then show ?thesis by (simp add: its_loop_uits_loop)
next
  case None
  show ?thesis
  proof (cases "uits_loop n f lb ub g acc")
    case (Some rvs)
    then have "its_loop n f lb ub g acc = Some rvs" by (rule uits_loop_its_loop)
    with None show ?thesis by simp
  next
    case n: None
    with None show ?thesis by simp
  qed
qed

text \<open>
  C8, as stated: with both bounds set, every element of a returned batch lies within the
  bounds and the batch has exactly \<open>n_samples\<close> elements. A candidate that is NaN is neither
  below the lower bound nor above the upper bound in float comparison, so it is kept: with
  the bounds \<open>1\<close> and \<open>3\<close> and a quantile function whose value is NaN, both variants return
  the batch of one NaN, which is not within the bounds. For \<open>n_samples = -1\<close> both variants
  return the empty batch, whose length is not \<open>n_samples\<close>.
\<close>

theorem clamped_batch_counterexample:
  "inverse_transform_sampling 1 (\<lambda>u. NaN) (Some (Finite 1)) (Some (Finite 3))
       (\<lambda>n. Finite (1 / 2)) = Some [NaN]
   \<and> user_inverse_transform_sampling_from_inverse 1 (\<lambda>u. NaN) (Some (Finite 1)) (Some (Finite 3))
       (\<lambda>n. Finite (1 / 2)) = Some [NaN]
   \<and> \<not> float_le (Finite 1) NaN \<and> \<not> float_le NaN (Finite 3)
   \<and> inverse_transform_sampling (- 1) (\<lambda>u. u) (Some (Finite 1)) (Some (Finite 3))
       (\<lambda>n. Finite (1 / 2)) = Some []
   \<and> user_inverse_transform_sampling_from_inverse (- 1) (\<lambda>u. u) (Some (Finite 1))
       (Some (Finite 3)) (\<lambda>n. Finite (1 / 2)) = Some []
   \<and> int (length ([] :: pyfloat list)) \<noteq> - 1"
proof -
  have "its_loop 1 (\<lambda>u. NaN) (Some (Finite 1)) (Some (Finite 3)) (\<lambda>n. Finite (1 / 2)) []
          = Some [NaN]"
    using its_loop_returns [of 1 "[]" "Finite 1" "Finite 3" "\<lambda>u. NaN" "\<lambda>n. Finite (1 / 2)" 1]
    by (simp add: float_gt_def)
  moreover have "its_loop (- 1) (\<lambda>u. u) (Some (Finite 1)) (Some (Finite 3))
                   (\<lambda>n. Finite (1 / 2)) [] = Some []"
    by (subst its_loop.simps) simp
  ultimately show ?thesis
    by (simp add: inverse_transform_sampling_def
        user_inverse_transform_sampling_from_inverse_def uits_loop_eq)
qed

text \<open>
  C8, amended. For both variants with both bounds set, a returned batch has \<open>n_samples\<close>
  elements when \<open>n_samples \<ge> 0\<close> (and none when \<open>n_samples\<close> is negative); no element is
  below the lower bound or above the upper bound in float comparison, so that, the bounds
  not being NaN, every element other than NaN lies within \<open>[lower_bound, upper_bound]\<close>.
  The call returns when \<open>n_samples\<close> of the draws are mapped to values that pass the check,
  and the batch is then the first \<open>n_samples\<close> such values in the order drawn.
\<close>

theorem clamped_batch_passes_check:
  "(inverse_transform_sampling n_samples ppf (Some lower_bound) (Some upper_bound) g = Some rvs
      \<longrightarrow> length rvs = nat n_samples
          \<and> (0 \<le> n_samples \<longrightarrow> int (length rvs) = n_samples)
          \<and> (\<forall>rv\<in>set rvs. \<not> float_lt rv lower_bound \<and> \<not> float_gt rv upper_bound)
          \<and> (\<forall>rv\<in>set rvs. rv \<noteq> NaN \<and> lower_bound \<noteq> NaN \<and> upper_bound \<noteq> NaN
                \<longrightarrow> float_le lower_bound rv \<and> float_le rv upper_bound))
   \<and> (user_inverse_transform_sampling_from_inverse n_samples inverse_func
         (Some lower_bound) (Some upper_bound) g' = Some rvs'
      \<longrightarrow> length rvs' = nat n_samples
          \<and> (0 \<le> n_samples \<longrightarrow> int (length rvs') = n_samples)
          \<and> (\<forall>rv\<in>set rvs'. \<not> float_lt rv lower_bound \<and> \<not> float_gt rv upper_bound)
          \<and> (\<forall>rv\<in>set rvs'. rv \<noteq> NaN \<and> lower_bound \<noteq> NaN \<and> upper_bound \<noteq> NaN
                \<longrightarrow> float_le lower_bound rv \<and> float_le rv upper_bound))
   \<and> (nat n_samples \<le> length (filter (\<lambda>rv. \<not> float_lt rv lower_bound \<and> \<not> float_gt rv upper_bound)
                                 (map (\<lambda>k. ppf (g k)) [0..<K]))
      \<longrightarrow> inverse_transform_sampling n_samples ppf (Some lower_bound) (Some upper_bound) g =
            Some (take (nat n_samples)
                    (filter (\<lambda>rv. \<not> float_lt rv lower_bound \<and> \<not> float_gt rv upper_bound)
                       (map (\<lambda>k. ppf (g k)) [0..<K]))))
   \<and> (nat n_samples \<le> length (filter (\<lambda>rv. \<not> float_lt rv lower_bound \<and> \<not> float_gt rv upper_bound)
                                 (map (\<lambda>k. inverse_func (g' k)) [0..<K']))
      \<longrightarrow> user_inverse_transform_sampling_from_inverse n_samples inverse_func
              (Some lower_bound) (Some upper_bound) g' =
            Some (take (nat n_samples)
                    (filter (\<lambda>rv. \<not> float_lt rv lower_bound \<and> \<not> float_gt rv upper_bound)
                       (map (\<lambda>k. inverse_func (g' k)) [0..<K']))))"
proof -
  have inv: "length xs = nat n_samples
          \<and> (0 \<le> n_samples \<longrightarrow> int (length xs) = n_samples)
          \<and> (\<forall>rv\<in>set xs. \<not> float_lt rv lower_bound \<and> \<not> float_gt rv upper_bound)
          \<and> (\<forall>rv\<in>set xs. rv \<noteq> NaN \<and> lower_bound \<noteq> NaN \<and> upper_bound \<noteq> NaN
                \<longrightarrow> float_le lower_bound rv \<and> float_le rv upper_bound)"
    if "its_loop n_samples f (Some lower_bound) (Some upper_bound) h [] = Some xs" for f h xs
  proof -
    from its_loop_inv [OF that]
    have len: "length xs = nat n_samples"
      and chk: "\<forall>rv\<in>set xs. \<not> float_lt rv lower_bound \<and> \<not> float_gt rv upper_bound"
      by simp_all
    from len have "0 \<le> n_samples \<longrightarrow> int (length xs) = n_samples" by simp
    moreover have "\<forall>rv\<in>set xs. rv \<noteq> NaN \<and> lower_bound \<noteq> NaN \<and> upper_bound \<noteq> NaN
                \<longrightarrow> float_le lower_bound rv \<and> float_le rv upper_bound"
      using chk by (auto simp add: float_gt_def float_not_lt_iff_le)
    ultimately show ?thesis using len chk by blast
  qed
  have c1: "inverse_transform_sampling n_samples ppf (Some lower_bound) (Some upper_bound) g
              = Some rvs
      \<longrightarrow> length rvs = nat n_samples
          \<and> (0 \<le> n_samples \<longrightarrow> int (length rvs) = n_samples)
          \<and> (\<forall>rv\<in>set rvs. \<not> float_lt rv lower_bound \<and> \<not> float_gt rv upper_bound)
          \<and> (\<forall>rv\<in>set rvs. rv \<noteq> NaN \<and> lower_bound \<noteq> NaN \<and> upper_bound \<noteq> NaN
                \<longrightarrow> float_le lower_bound rv \<and> float_le rv upper_bound)"
  proof
    assume "inverse_transform_sampling n_samples ppf (Some lower_bound) (Some upper_bound) g
              = Some rvs"
    then have "its_loop n_samples ppf (Some lower_bound) (Some upper_bound) g [] = Some rvs"
      by (simp add: inverse_transform_sampling_def)
    then show "length rvs = nat n_samples
          \<and> (0 \<le> n_samples \<longrightarrow> int (length rvs) = n_samples)
          \<and> (\<forall>rv\<in>set rvs. \<not> float_lt rv lower_bound \<and> \<not> float_gt rv upper_bound)
          \<and> (\<forall>rv\<in>set rvs. rv \<noteq> NaN \<and> lower_bound \<noteq> NaN \<and> upper_bound \<noteq> NaN
                \<longrightarrow> float_le lower_bound rv \<and> float_le rv upper_bound)"
      by (rule inv)
  qed
  have c2: "user_inverse_transform_sampling_from_inverse n_samples inverse_func
         (Some lower_bound) (Some upper_bound) g' = Some rvs'
      \<longrightarrow> length rvs' = nat n_samples
          \<and> (0 \<le> n_samples \<longrightarrow> int (length rvs') = n_samples)
          \<and> (\<forall>rv\<in>set rvs'. \<not> float_lt rv lower_bound \<and> \<not> float_gt rv upper_bound)
          \<and> (\<forall>rv\<in>set rvs'. rv \<noteq> NaN \<and> lower_bound \<noteq> NaN \<and> upper_bound \<noteq> NaN
                \<longrightarrow> float_le lower_bound rv \<and> float_le rv upper_bound)"
  proof
    assume "user_inverse_transform_sampling_from_inverse n_samples inverse_func
              (Some lower_bound) (Some upper_bound) g' = Some rvs'"
    then have "its_loop n_samples inverse_func (Some lower_bound) (Some upper_bound) g' []
                 = Some rvs'"
      by (simp add: user_inverse_transform_sampling_from_inverse_def uits_loop_eq)
    then show "length rvs' = nat n_samples
          \<and> (0 \<le> n_samples \<longrightarrow> int (length rvs') = n_samples)
          \<and> (\<forall>rv\<in>set rvs'. \<not> float_lt rv lower_bound \<and> \<not> float_gt rv upper_bound)
          \<and> (\<forall>rv\<in>set rvs'. rv \<noteq> NaN \<and> lower_bound \<noteq> NaN \<and> upper_bound \<noteq> NaN
                \<longrightarrow> float_le lower_bound rv \<and> float_le rv upper_bound)"
      by (rule inv)
  qed
  have c3: "nat n_samples \<le> length (filter (\<lambda>rv. \<not> float_lt rv lower_bound \<and> \<not> float_gt rv upper_bound)
                                 (map (\<lambda>k. ppf (g k)) [0..<K]))
      \<longrightarrow> inverse_transform_sampling n_samples ppf (Some lower_bound) (Some upper_bound) g =
            Some (take (nat n_samples)
                    (filter (\<lambda>rv. \<not> float_lt rv lower_bound \<and> \<not> float_gt rv upper_bound)
                       (map (\<lambda>k. ppf (g k)) [0..<K])))"
    using its_loop_returns [of n_samples "[]" lower_bound upper_bound ppf g K]
    by (simp add: inverse_transform_sampling_def)
  have c4: "nat n_samples \<le> length (filter (\<lambda>rv. \<not> float_lt rv lower_bound \<and> \<not> float_gt rv upper_bound)
                                 (map (\<lambda>k. inverse_func (g' k)) [0..<K']))
      \<longrightarrow> user_inverse_transform_sampling_from_inverse n_samples inverse_func
              (Some lower_bound) (Some upper_bound) g' =
            Some (take (nat n_samples)
                    (filter (\<lambda>rv. \<not> float_lt rv lower_bound \<and> \<not> float_gt rv upper_bound)
                       (map (\<lambda>k. inverse_func (g' k)) [0..<K'])))"
    using its_loop_returns [of n_samples "[]" lower_bound upper_bound inverse_func g' K']
    by (simp add: user_inverse_transform_sampling_from_inverse_def uits_loop_eq)
  show ?thesis by (intro conjI c1 c2 c3 c4)
qed

theorem clamped_batch_passes_check_witness:
  "filter (\<lambda>rv. \<not> float_lt rv (Finite (1 / 2)) \<and> \<not> float_gt rv (Finite 1))
      (map (\<lambda>k. float_add
                  (if k = 0 then Finite (1 / 8) else if k = 1 then NaN else Finite (1 / 2))
                  (if k = 0 then Finite (1 / 8) else if k = 1 then NaN else Finite (1 / 2)))
         [0..<3]) = [NaN, Finite 1]
   \<and> inverse_transform_sampling 2 (\<lambda>u. float_add u u) (Some (Finite (1 / 2))) (Some (Finite 1))
       (\<lambda>n. if n = 0 then Finite (1 / 8) else if n = 1 then NaN else Finite (1 / 2))
       = Some [NaN, Finite 1]
   \<and> user_inverse_transform_sampling_from_inverse 2 (\<lambda>u. float_add u u)
       (Some (Finite (1 / 2))) (Some (Finite 1))
       (\<lambda>n. if n = 0 then Finite (1 / 8) else if n = 1 then NaN else Finite (1 / 2))
       = Some [NaN, Finite 1]
   \<and> length [NaN, Finite 1] = nat 2 \<and> (0::int) \<le> 2 \<and> int (length [NaN, Finite 1]) = 2
   \<and> \<not> float_lt NaN (Finite (1 / 2)) \<and> \<not> float_gt NaN (Finite 1)
   \<and> \<not> float_lt (Finite 1) (Finite (1 / 2)) \<and> \<not> float_gt (Finite 1) (Finite 1)
   \<and> Finite 1 \<noteq> NaN \<and> Finite (1 / 2) \<noteq> NaN
   \<and> float_le (Finite (1 / 2)) (Finite 1) \<and> float_le (Finite 1) (Finite 1)"
proof -
  let ?t = "\<lambda>n::nat. if n = 0 then Finite (1 / 8) else if n = 1 then NaN else Finite (1 / 2)"
  have f: "filter (\<lambda>rv. \<not> float_lt rv (Finite (1 / 2)) \<and> \<not> float_gt rv (Finite 1))
      (map (\<lambda>k. float_add (?t k) (?t k)) [0..<3]) = [NaN, Finite 1]"
  proof -
    have "[0..<3] = [0, 1, 2 :: nat]" by (simp add: upt_rec)
    then show ?thesis by (simp add: round_to_float_values float_gt_def)
  qed
  note t = clamped_batch_passes_check
    [of 2 "\<lambda>u. float_add u u" "Finite (1 / 2)" "Finite 1" ?t "[NaN, Finite 1]"
        "\<lambda>u. float_add u u" ?t "[NaN, Finite 1]" 3 3]
  from t f have a: "inverse_transform_sampling 2 (\<lambda>u. float_add u u) (Some (Finite (1 / 2)))
       (Some (Finite 1)) ?t = Some [NaN, Finite 1]"
    by simp
  from t f have b: "user_inverse_transform_sampling_from_inverse 2 (\<lambda>u. float_add u u)
       (Some (Finite (1 / 2))) (Some (Finite 1)) ?t = Some [NaN, Finite 1]"
    by simp
  from a b f show ?thesis by (simp add: float_gt_def)
qed

end
